theory Spec2Isabelle
  imports Complex_Main
begin

section \<open>pgslam: pose algebra, scan matching and the SLAM front-end\<close>

text \<open>
  A shallow embedding of \<^verbatim>\<open>src/pgslam.cc\<close>. A C++ \<^verbatim>\<open>double\<close> is modelled by a
  real number: addition, multiplication, \<^verbatim>\<open>sin\<close>, \<^verbatim>\<open>cos\<close> and \<^verbatim>\<open>sqrt\<close> are the exact
  ones, \<^verbatim>\<open>M_PI\<close> is \<open>pi\<close>, and rounding, infinities and NaN are outside the model.
  A division whose divisor can be zero is written with \<open>fdiv\<close>, whose result \<open>None\<close>
  stands for the non-finite value the division produces.
\<close>

subsection \<open>Constants of \<^verbatim>\<open>float.h\<close>\<close>

definition DBL_MAX :: real where
  "DBL_MAX = (2 ^ 53 - 1) * 2 ^ 971"

definition DBL_EPSILON :: real where
  "DBL_EPSILON = 1 / 2 ^ 52"

definition fdiv :: "real \<Rightarrow> real \<Rightarrow> real option" where
  "fdiv a b = (if b = 0 then None else Some (a / b))"

subsection \<open>Eigen::Vector2d and Eigen::Rotation2D\<close>

type_synonym vec2 = "real \<times> real"

definition vadd :: "vec2 \<Rightarrow> vec2 \<Rightarrow> vec2" where
  "vadd a b = (fst a + fst b, snd a + snd b)"

definition vsub :: "vec2 \<Rightarrow> vec2 \<Rightarrow> vec2" where
  "vsub a b = (fst a - fst b, snd a - snd b)"

definition vscale :: "vec2 \<Rightarrow> real \<Rightarrow> vec2" where
  "vscale a s = (fst a * s, snd a * s)"

definition vdiv :: "vec2 \<Rightarrow> real \<Rightarrow> vec2" where
  "vdiv a s = (fst a / s, snd a / s)"

definition vnorm :: "vec2 \<Rightarrow> real" where
  "vnorm a = sqrt (fst a * fst a + snd a * snd a)"

definition rotate2d :: "real \<Rightarrow> vec2 \<Rightarrow> vec2" where
  "rotate2d angle v = (cos angle * fst v - sin angle * snd v, sin angle * fst v + cos angle * snd v)"

subsection \<open>Pose2D\<close>

record pose2d =
  pose_x :: real
  pose_y :: real
  pose_theta :: real

text \<open>The two normalisation loops shared by the constructor, \<^verbatim>\<open>set_theta\<close> and the
  keyscan search: \<^verbatim>\<open>while (t < -M_PI) t += 2 * M_PI;\<close> and
  \<^verbatim>\<open>while (t > M_PI) t -= 2 * M_PI;\<close>.\<close>

function wrap_up :: "real \<Rightarrow> real" where
  "wrap_up t = (if t < - pi then wrap_up (t + 2 * pi) else t)"
  by pat_completeness auto
termination
proof (relation "measure (\<lambda>t. nat \<lceil>- t / (2 * pi)\<rceil>)")
  show "wf (measure (\<lambda>t. nat \<lceil>- t / (2 * pi)\<rceil>))" by simp
next
  fix t :: real
  assume lt: "t < - pi"
  have eq: "- (t + 2 * pi) / (2 * pi) = - t / (2 * pi) - 1"
    by (simp add: field_simps)
  have "1 / 2 < - t / (2 * pi)"
    using lt pi_gt_zero by (simp add: field_simps)
  then have "0 < \<lceil>- t / (2 * pi)\<rceil>" by linarith
  moreover have "\<lceil>- (t + 2 * pi) / (2 * pi)\<rceil> = \<lceil>- t / (2 * pi)\<rceil> - 1"
    by (simp only: eq ceiling_diff_one)
  ultimately have "nat \<lceil>- (t + 2 * pi) / (2 * pi)\<rceil> < nat \<lceil>- t / (2 * pi)\<rceil>"
    by linarith
  then show "(t + 2 * pi, t) \<in> measure (\<lambda>t. nat \<lceil>- t / (2 * pi)\<rceil>)"
    by (simp only: in_measure)
qed

function wrap_down :: "real \<Rightarrow> real" where
  "wrap_down t = (if t > pi then wrap_down (t - 2 * pi) else t)"
  by pat_completeness auto
termination
proof (relation "measure (\<lambda>t. nat \<lceil>t / (2 * pi)\<rceil>)")
  show "wf (measure (\<lambda>t. nat \<lceil>t / (2 * pi)\<rceil>))" by simp
next
  fix t :: real
  assume gt: "pi < t"
  have eq: "(t - 2 * pi) / (2 * pi) = t / (2 * pi) - 1"
    by (simp add: field_simps)
  have "1 / 2 < t / (2 * pi)"
    using gt pi_gt_zero by (simp add: field_simps)
  then have "0 < \<lceil>t / (2 * pi)\<rceil>" by linarith
  moreover have "\<lceil>(t - 2 * pi) / (2 * pi)\<rceil> = \<lceil>t / (2 * pi)\<rceil> - 1"
    by (simp only: eq ceiling_diff_one)
  ultimately have "nat \<lceil>(t - 2 * pi) / (2 * pi)\<rceil> < nat \<lceil>t / (2 * pi)\<rceil>"
    by linarith
  then show "(t - 2 * pi, t) \<in> measure (\<lambda>t. nat \<lceil>t / (2 * pi)\<rceil>)"
    by (simp only: in_measure)
qed

declare wrap_up.simps [simp del]
declare wrap_down.simps [simp del]

definition normalize_theta :: "real \<Rightarrow> real" where
  "normalize_theta t = wrap_down (wrap_up t)"

text \<open>\<^verbatim>\<open>Pose2D::Pose2D()\<close>\<close>

definition Pose2D_default :: pose2d where
  "Pose2D_default = \<lparr>pose_x = 0, pose_y = 0, pose_theta = 0\<rparr>"

text \<open>\<^verbatim>\<open>Pose2D::Pose2D(double x, double y, double theta)\<close>\<close>

definition Pose2D :: "real \<Rightarrow> real \<Rightarrow> real \<Rightarrow> pose2d" where
  "Pose2D x y theta = \<lparr>pose_x = x, pose_y = y, pose_theta = normalize_theta theta\<rparr>"

definition set_x :: "real \<Rightarrow> pose2d \<Rightarrow> pose2d" where
  "set_x x p = p\<lparr>pose_x := x\<rparr>"

definition set_y :: "real \<Rightarrow> pose2d \<Rightarrow> pose2d" where
  "set_y y p = p\<lparr>pose_y := y\<rparr>"


definition pos :: "pose2d \<Rightarrow> vec2" where
  "pos p = (pose_x p, pose_y p)"

text \<open>\<^verbatim>\<open>Pose2D::operator +\<close>\<close>

definition Pose2D_add :: "pose2d \<Rightarrow> pose2d \<Rightarrow> pose2d" where
  "Pose2D_add this p =
     (let v1 = (pose_x this, pose_y this);
          v2 = (pose_x p, pose_y p);
          v2 = rotate2d (pose_theta this) v2;
          v = vadd v1 v2
      in Pose2D (fst v) (snd v) (pose_theta this + pose_theta p))"

text \<open>\<^verbatim>\<open>Pose2D::inverse\<close>\<close>

definition inverse_pose :: "pose2d \<Rightarrow> pose2d" where
  "inverse_pose this =
     (let v = (- pose_x this, - pose_y this);
          v = rotate2d (- pose_theta this) v
      in Pose2D (fst v) (snd v) (- pose_theta this))"

text \<open>\<^verbatim>\<open>Pose2D::operator -\<close>: \<^verbatim>\<open>return p.inverse() + *this;\<close>\<close>

definition Pose2D_sub :: "pose2d \<Rightarrow> pose2d \<Rightarrow> pose2d" where
  "Pose2D_sub this p = Pose2D_add (inverse_pose p) this"

subsection \<open>Echo and LaserScan\<close>

record echo =
  echo_range :: real
  echo_angle :: real
  echo_intensity :: real
  echo_time_stamp :: int

definition get_point :: "echo \<Rightarrow> vec2" where
  "get_point e = (echo_range e * cos (echo_angle e), echo_range e * sin (echo_angle e))"

text \<open>The fields of \<^verbatim>\<open>LaserScan\<close>; a field the constructor leaves uninitialised
  (\<^verbatim>\<open>max_x_\<close> and the other three bounds) is given by the caller of the model.\<close>

record laser_scan =
  ls_points_self :: "vec2 list"
  ls_points_world :: "vec2 list"
  ls_pose :: pose2d
  ls_world_transformed_flag :: bool
  ls_match_threshold :: real
  ls_dist_threshold :: real
  ls_max_x :: real
  ls_min_x :: real
  ls_max_y :: real
  ls_min_y :: real

text \<open>\<^verbatim>\<open>LaserScan::LaserScan(std::vector<Echo> echos, Pose2D pose)\<close>; the constructor
  without a pose is this one at \<open>Pose2D_default\<close>.\<close>

definition LaserScan :: "echo list \<Rightarrow> pose2d \<Rightarrow> real \<times> real \<times> real \<times> real \<Rightarrow> laser_scan" where
  "LaserScan echos p bounds =
     (case bounds of (mx, mnx, my, mny) \<Rightarrow>
       \<lparr>ls_points_self = map get_point echos, ls_points_world = [], ls_pose = p,
        ls_world_transformed_flag = False, ls_match_threshold = 1 / 10, ls_dist_threshold = 1,
        ls_max_x = mx, ls_min_x = mnx, ls_max_y = my, ls_min_y = mny\<rparr>)"

definition get_pose :: "laser_scan \<Rightarrow> pose2d" where
  "get_pose this = ls_pose this"

definition set_pose :: "pose2d \<Rightarrow> laser_scan \<Rightarrow> laser_scan" where
  "set_pose p this = this\<lparr>ls_pose := p, ls_world_transformed_flag := False\<rparr>"

text \<open>\<^verbatim>\<open>LaserScan::transform\<close>: \<^verbatim>\<open>v2[i] = rot * v[i]; v2[i] += move;\<close> for every index.\<close>

definition transform :: "vec2 list \<Rightarrow> pose2d \<Rightarrow> vec2 list" where
  "transform v p = map (\<lambda>q. vadd (rotate2d (pose_theta p) q) (pose_x p, pose_y p)) v"

subsection \<open>LaserScan::ICP\<close>

text \<open>
  The ratio argument is a pointer to a double: null, pointing to a cell never written, or
  pointing to a cell that holds a value. \<open>store_ratio\<close> is
  \<^verbatim>\<open>if (ratio != nullptr) *ratio = v;\<close>.
\<close>

datatype ratio_ptr = Nullptr | Uninitialised | Holds real

definition store_ratio :: "ratio_ptr \<Rightarrow> real \<Rightarrow> ratio_ptr" where
  "store_ratio ratio v = (case ratio of Nullptr \<Rightarrow> Nullptr | _ \<Rightarrow> Holds v)"

text \<open>
  The kd-tree of \<^verbatim>\<open>pgslam/kdtree2d.h\<close> is a parameter of the model: \<open>tree pts q\<close> is
  the answer of \<^verbatim>\<open>NearestIndex(q)\<close> on the tree constructed from \<open>pts\<close>, with \<open>None\<close>
  for the answer \<^verbatim>\<open>-1\<close>. So is the content of the slots that \<^verbatim>\<open>resize\<close> appends
  to the reference scan and the interpolation loop never writes: slot \<open>k\<close> holds
  \<open>uninit k\<close>.
\<close>

type_synonym kdtree = "vec2 list \<Rightarrow> vec2 \<Rightarrow> nat option"

definition insert_num :: nat where
  "insert_num = 7"

definition densify :: "(nat \<Rightarrow> vec2) \<Rightarrow> vec2 list \<Rightarrow> vec2 list" where
  "densify uninit scan_cache =
     (let resized = scan_cache @ map uninit [length scan_cache..<length scan_cache * insert_num]
      in fold (\<lambda>i. fold (\<lambda>j scan_ref.
                 scan_ref[insert_num * i + j :=
                   vadd (vscale (vdiv (vsub (scan_cache ! (i + 1)) (scan_cache ! i)) (real insert_num)) (real j))
                        (scan_cache ! i)])
               [0..<insert_num])
           [0..<length scan_cache - 1] resized)"

text \<open>The correspondence search of one iteration. It stops at the first query without
  an answer; an answer beyond the reference scan makes \<^verbatim>\<open>trace_back[index]\<close> an access
  out of bounds, which the model reports as \<open>BadIndex\<close>.\<close>

datatype 'a search = NoMatch | BadIndex | Found 'a

fun search_nearest ::
  "kdtree \<Rightarrow> vec2 list \<Rightarrow> vec2 list \<Rightarrow> real \<Rightarrow> real \<Rightarrow> nat list \<Rightarrow>
   vec2 list \<times> nat list list \<times> bool list \<times> int \<Rightarrow>
   (vec2 list \<times> nat list list \<times> bool list \<times> int) search" where
  "search_nearest tree scan_ref scan mt dt [] st = Found st"
| "search_nearest tree scan_ref scan mt dt (i # rest) (near, trace_back, msk, match_count) =
     (case tree scan_ref (scan ! i) of
        None \<Rightarrow> NoMatch
      | Some index \<Rightarrow>
          if length scan_ref \<le> index then BadIndex
          else
            let trace_back = trace_back[index := trace_back ! index @ [i]];
                closest = scan_ref ! index;
                distance = vnorm (vsub (scan ! i) closest);
                match_count = (if distance < mt then match_count + 1 else match_count)
            in if distance < dt
               then search_nearest tree scan_ref scan mt dt rest
                      (near[i := closest], trace_back, msk[i := True], match_count)
               else search_nearest tree scan_ref scan mt dt rest
                      (near, trace_back, msk[i := False], match_count))"

text \<open>\<^verbatim>\<open>// disable the points have one same nearest point\<close>\<close>

definition disable_shared ::
  "vec2 list \<Rightarrow> nat list list \<Rightarrow> vec2 list \<times> bool list \<Rightarrow> vec2 list \<times> bool list" where
  "disable_shared scan trace_back st =
     fold (\<lambda>tb st.
             if 3 < length tb
             then fold (\<lambda>k (near, msk). (near[k := scan ! k], msk[k := False])) tb st
             else st)
          trace_back st"

text \<open>\<^verbatim>\<open>// disable the farest 10% point\<close>: the inner loop over \<open>j\<close>, with its
  \<^verbatim>\<open>break\<close>, for one distance; then the loop over the scan; then the loop that clears
  the mask, which starts at slot 1.\<close>

fun track_farthest ::
  "real \<Rightarrow> nat \<Rightarrow> nat list \<Rightarrow> real list \<times> nat list \<Rightarrow> real list \<times> nat list" where
  "track_farthest distance i [] (max_distance, max_index) = (max_distance, max_index)"
| "track_farthest distance i (j # js) (max_distance, max_index) =
     (if max_distance ! j < distance
      then
        let md = max_distance[j - 1 := max_distance ! j];
            mi = max_index[j - 1 := max_index ! j]
        in if j = length max_distance - 1
           then track_farthest distance i js (md[j := distance], mi[j := i])
           else track_farthest distance i js (md, mi)
      else (max_distance[j - 1 := distance], max_index[j - 1 := i]))"

definition farthest_slots :: "real list \<Rightarrow> real list \<times> nat list" where
  "farthest_slots distances =
     fold (\<lambda>i (max_distance, max_index).
             track_farthest (distances ! i) i [1..<length max_distance] (max_distance, max_index))
          [0..<length distances]
          (replicate (length distances div 10) 0, replicate (length distances div 10) 0)"

definition residuals :: "vec2 list \<Rightarrow> vec2 list \<Rightarrow> real list" where
  "residuals scan near = map (\<lambda>i. vnorm (vsub (scan ! i) (near ! i))) [0..<length scan]"

definition clear_slots :: "nat list \<Rightarrow> bool list \<Rightarrow> bool list" where
  "clear_slots max_index msk = fold (\<lambda>i msk. msk[max_index ! i := False]) [1..<length max_index] msk"

definition tail_reject :: "vec2 list \<Rightarrow> vec2 list \<Rightarrow> bool list \<Rightarrow> bool list" where
  "tail_reject scan near msk = clear_slots (snd (farthest_slots (residuals scan near))) msk"

text \<open>\<^verbatim>\<open>// calc center\<close>\<close>

definition calc_center :: "vec2 list \<Rightarrow> bool list \<Rightarrow> vec2 \<times> int" where
  "calc_center scan msk =
     fold (\<lambda>i (center, count). if msk ! i then (vadd center (scan ! i), count + 1) else (center, count))
          [0..<length scan] ((0, 0), 0)"

text \<open>\<^verbatim>\<open>// calc the tramsform\<close>; \<^verbatim>\<open>delta.normalize()\<close> divides by the norm.\<close>

definition calc_transform :: "vec2 list \<Rightarrow> vec2 list \<Rightarrow> bool list \<Rightarrow> vec2 \<Rightarrow> vec2 \<times> real" where
  "calc_transform scan near msk center =
     fold (\<lambda>i (move, rot).
             if \<not> msk ! i then (move, rot)
             else
               let delta = vsub (near ! i) (scan ! i);
                   len = vnorm delta;
                   delta = (if 0 < len
                            then vscale (vdiv delta len) (if len < 5 / 100 then len else sqrt (len * 20) / 20)
                            else delta);
                   move = vadd move delta;
                   p = vsub (scan ! i) center;
                   q = vsub (near ! i) center
               in if vnorm p < DBL_EPSILON * 2 then (move, rot)
                  else (move, rot + (fst p * snd q - snd p * fst q) / vnorm p / sqrt (vnorm p)))
          [0..<length scan] ((0, 0), 0)"

datatype icp_step =
  Return pose2d ratio_ptr "string list"
| Continue pose2d ratio_ptr
| OutOfBounds

definition icp_iteration ::
  "kdtree \<Rightarrow> real \<Rightarrow> real \<Rightarrow> vec2 list \<Rightarrow> vec2 list \<Rightarrow> pose2d \<Rightarrow> pose2d \<Rightarrow> ratio_ptr \<Rightarrow> icp_step" where
  "icp_iteration tree mt dt scan_ref scan_origin reference_pose p ratio =
     (let scan = transform scan_origin p
      in case search_nearest tree scan_ref scan mt dt [0..<length scan]
                (scan, replicate (length scan_ref) [], replicate (length scan) False, 0) of
           NoMatch \<Rightarrow> Return Pose2D_default (store_ratio ratio 0) []
         | BadIndex \<Rightarrow> OutOfBounds
         | Found (near, trace_back, msk, match_count) \<Rightarrow>
             let ratio = store_ratio ratio (real_of_int match_count / real (length scan));
                 (near, msk) = disable_shared scan trace_back (near, msk);
                 msk = tail_reject scan near msk;
                 (center, count) = calc_center scan msk
             in if count = 0
                then Return reference_pose (store_ratio ratio 0)
                       [''Error: no valid point, return reference pose.'']
                else
                  let center = vdiv center (real_of_int count);
                      (move, rot) = calc_transform scan near msk center;
                      move = vdiv move (real_of_int count);
                      rot = rot / real_of_int count;
                      move = vscale move 2;
                      rot = rot * 1;
                      pose_delta = Pose2D (fst move) (snd move) rot;
                      pose_delta = Pose2D_add (Pose2D_add (inverse_pose p) pose_delta) p
                  in Continue (Pose2D_add p pose_delta) ratio)"

fun icp_loop ::
  "nat \<Rightarrow> kdtree \<Rightarrow> real \<Rightarrow> real \<Rightarrow> vec2 list \<Rightarrow> vec2 list \<Rightarrow> pose2d \<Rightarrow> pose2d \<Rightarrow> ratio_ptr \<Rightarrow>
   (pose2d \<times> ratio_ptr \<times> string list) option" where
  "icp_loop 0 tree mt dt scan_ref scan_origin reference_pose p ratio = Some (p, ratio, [])"
| "icp_loop (Suc n) tree mt dt scan_ref scan_origin reference_pose p ratio =
     (case icp_iteration tree mt dt scan_ref scan_origin reference_pose p ratio of
        Return q r msgs \<Rightarrow> Some (q, r, msgs)
      | OutOfBounds \<Rightarrow> None
      | Continue q r \<Rightarrow> icp_loop n tree mt dt scan_ref scan_origin reference_pose q r)"

text \<open>The result of a call \<^verbatim>\<open>this->ICP(scan_, ratio)\<close>: the returned pose, the cell behind
  \<^verbatim>\<open>ratio\<close>, what was written to \<^verbatim>\<open>std::cout\<close>, and the two scans as the call leaves
  them (\<open>other\<close> is the argument \<^verbatim>\<open>scan_\<close>). \<open>None\<close> is the access out of bounds.\<close>

record icp_result =
  icp_pose :: pose2d
  icp_ratio :: ratio_ptr
  icp_log :: "string list"
  icp_this :: laser_scan
  icp_other :: laser_scan

definition ICP ::
  "kdtree \<Rightarrow> (nat \<Rightarrow> vec2) \<Rightarrow> laser_scan \<Rightarrow> laser_scan \<Rightarrow> ratio_ptr \<Rightarrow> icp_result option" where
  "ICP tree uninit this other ratio =
     (let scan_ref = ls_points_self this;
          scan = ls_points_self other;
          reference_pose = Pose2D_sub (get_pose other) (ls_pose this)
      in if length scan_ref < 2 \<or> length scan < 2
         then Some \<lparr>icp_pose = reference_pose, icp_ratio = ratio,
                    icp_log = [''Error: scan.size() < 2''], icp_this = this, icp_other = other\<rparr>
         else
           let scan_ref = densify uninit scan_ref
           in case icp_loop 20 tree (ls_match_threshold this) (ls_dist_threshold this)
                     scan_ref scan reference_pose reference_pose ratio of
                None \<Rightarrow> None
              | Some (p, r, msgs) \<Rightarrow>
                  Some \<lparr>icp_pose = p, icp_ratio = r, icp_log = msgs,
                        icp_this = this, icp_other = other\<rparr>)"

subsection \<open>Slam\<close>

text \<open>
  The build without \<^verbatim>\<open>USE_ISAM\<close>. A callback slot is a \<^verbatim>\<open>std::function\<close>: the model
  keeps whether it holds a callable, and every operation returns, beside the new state,
  the list of what it did to the outside in program order: a call of the pose-update
  callback with its argument, a call of the map-update callback, a line on
  \<^verbatim>\<open>std::cout\<close>.
\<close>

datatype event =
  PoseUpdate pose2d
| MapUpdate
| AddKeyScan nat pose2d
| Printed string

record slam =
  slam_pose :: pose2d
  slam_scans :: "laser_scan list"
  keyscan_threshold :: real
  factor_threshold :: real
  pose_update_callback :: bool
  map_update_callback :: bool

definition Slam :: slam where
  "Slam = \<lparr>slam_pose = Pose2D_default, slam_scans = [], keyscan_threshold = 4 / 10,
            factor_threshold = 9 / 10, pose_update_callback = False, map_update_callback = False\<rparr>"



definition RegisterPoseUpdateCallback :: "slam \<Rightarrow> slam" where
  "RegisterPoseUpdateCallback this = this\<lparr>pose_update_callback := True\<rparr>"

definition RegisterMapUpdateCallback :: "slam \<Rightarrow> slam" where
  "RegisterMapUpdateCallback this = this\<lparr>map_update_callback := True\<rparr>"

text \<open>\<^verbatim>\<open>Slam::EncoderToPose2D\<close>; \<open>None\<close> is a pose with a non-finite coordinate.\<close>

definition EncoderToPose2D :: "real \<Rightarrow> real \<Rightarrow> real \<Rightarrow> pose2d option" where
  "EncoderToPose2D left right tread =
     (case fdiv (right - left) tread of
        None \<Rightarrow> None
      | Some theta \<Rightarrow>
          let theta_2 = theta / 2;
              arc = (right + left) / 2;
              radius = fdiv arc theta;
              secant = map_option (\<lambda>r. 2 * sin theta_2 * r) radius;
              secant = (if theta = 0 then Some arc else secant)
          in case secant of
               None \<Rightarrow> None
             | Some sec \<Rightarrow> Some (Pose2D (sec * cos theta_2) (sec * sin theta_2) theta))"

definition UpdatePoseWithPose :: "pose2d \<Rightarrow> slam \<Rightarrow> slam" where
  "UpdatePoseWithPose p this = this\<lparr>slam_pose := Pose2D_add (slam_pose this) p\<rparr>"

definition fire_pose_update :: "slam \<Rightarrow> event list" where
  "fire_pose_update this = (if pose_update_callback this then [PoseUpdate (slam_pose this)] else [])"

definition fire_map_update :: "slam \<Rightarrow> event list" where
  "fire_map_update this = (if map_update_callback this then [MapUpdate] else [])"

definition UpdatePoseWithEncoder :: "real \<Rightarrow> real \<Rightarrow> real \<Rightarrow> slam \<Rightarrow> (slam \<times> event list) option" where
  "UpdatePoseWithEncoder left right tread this =
     (case EncoderToPose2D left right tread of
        None \<Rightarrow> None
      | Some d \<Rightarrow>
          let this = this\<lparr>slam_pose := Pose2D_add (slam_pose this) d\<rparr>
          in Some (this, fire_pose_update this))"

text \<open>The distance of the search for the closest keyscan, and the search itself: the
  index of \<^verbatim>\<open>closest_scan\<close> in \<^verbatim>\<open>scans_\<close> and \<^verbatim>\<open>min_dist\<close>.\<close>

definition composite_dist :: "real \<Rightarrow> pose2d \<Rightarrow> pose2d \<Rightarrow> real" where
  "composite_dist kt p q =
     (let d = vnorm (vsub (pos p) (pos q));
          delta_theta = \<bar>pose_theta p - pose_theta q\<bar>;
          delta_theta = wrap_down (wrap_up delta_theta);
          delta_theta = delta_theta * (kt / (pi / 4 * 3))
      in sqrt (d * d + delta_theta * delta_theta))"

definition closest_scan :: "slam \<Rightarrow> laser_scan \<Rightarrow> nat \<times> real" where
  "closest_scan this scan =
     fold (\<lambda>i (closest, min_dist).
             let d = composite_dist (keyscan_threshold this)
                       (get_pose (slam_scans this ! i)) (get_pose scan)
             in if d < min_dist then (i, d) else (closest, min_dist))
          [0..<length (slam_scans this)] (0, DBL_MAX)"

text \<open>\<^verbatim>\<open>Slam::UpdatePoseWithLaserScan\<close>. The call of \<^verbatim>\<open>ICP\<close> is on the element of
  \<^verbatim>\<open>scans_\<close> itself, so the element is replaced by the scan as \<^verbatim>\<open>ICP\<close> leaves it; the
  local \<^verbatim>\<open>double ratio\<close> is passed uninitialised.\<close>

definition UpdatePoseWithLaserScan ::
  "kdtree \<Rightarrow> (nat \<Rightarrow> vec2) \<Rightarrow> laser_scan \<Rightarrow> slam \<Rightarrow> (slam \<times> event list) option" where
  "UpdatePoseWithLaserScan tree uninit scan0 this =
     (let scan = set_pose (slam_pose this) scan0
      in if slam_scans this = []
         then
           let this = this\<lparr>slam_scans := slam_scans this @ [scan]\<rparr>
           in Some (this, [AddKeyScan (length (slam_scans this)) (slam_pose this)] @ fire_map_update this)
         else
           case closest_scan this scan of (closest, min_dist) \<Rightarrow>
             if min_dist < keyscan_threshold this
             then
               case ICP tree uninit (slam_scans this ! closest) scan Uninitialised of
                 None \<Rightarrow> None
               | Some r \<Rightarrow>
                   let this = this\<lparr>slam_scans := (slam_scans this)[closest := icp_this r]\<rparr>;
                       this = this\<lparr>slam_pose := Pose2D_add (get_pose (slam_scans this ! closest)) (icp_pose r)\<rparr>
                   in Some (this, map Printed (icp_log r) @ fire_pose_update this)
             else
               let this = this\<lparr>slam_scans := slam_scans this @ [scan]\<rparr>
               in Some (this, [AddKeyScan (length (slam_scans this)) (slam_pose this)]
                              @ fire_map_update this @ fire_pose_update this))"

text \<open>The calls of the pose-update callback among the events of an operation.\<close>

fun is_pose_update :: "event \<Rightarrow> bool" where
  "is_pose_update (PoseUpdate p) = True"
| "is_pose_update e = False"

definition pose_updates :: "event list \<Rightarrow> event list" where
  "pose_updates evs = filter is_pose_update evs"

subsection \<open>Notions of the specification and example data\<close>

text \<open>Equality of poses up to a tolerance, as the specification's \<open>\<approx>\<close>: both
  coordinates within \<open>eps\<close>, and the angles within \<open>eps\<close> of each other modulo a full
  turn.\<close>

definition pose_approx :: "real \<Rightarrow> pose2d \<Rightarrow> pose2d \<Rightarrow> bool" where
  "pose_approx eps p q =
     (\<bar>pose_x p - pose_x q\<bar> \<le> eps \<and> \<bar>pose_y p - pose_y q\<bar> \<le> eps \<and>
      \<bar>normalize_theta (pose_theta p - pose_theta q)\<bar> \<le> eps)"

text \<open>A tree answers in range on a point sequence when every index it returns is an
  index of the sequence.\<close>

definition answers_in_range :: "kdtree \<Rightarrow> vec2 list \<Rightarrow> bool" where
  "answers_in_range tree pts = (\<forall>q k. tree pts q = Some k \<longrightarrow> k < length pts)"

text \<open>A scan with the thresholds the constructors set, a tree that answers no query, a
  tree that answers every query on a non-empty sequence with index 0, and zeroes for the
  unwritten slots.\<close>

definition example_scan :: "vec2 list \<Rightarrow> pose2d \<Rightarrow> laser_scan" where
  "example_scan pts p =
     \<lparr>ls_points_self = pts, ls_points_world = [], ls_pose = p,
      ls_world_transformed_flag = False, ls_match_threshold = 1 / 10, ls_dist_threshold = 1,
      ls_max_x = 0, ls_min_x = 0, ls_max_y = 0, ls_min_y = 0\<rparr>"

definition empty_tree :: kdtree where
  "empty_tree pts q = None"

definition first_tree :: kdtree where
  "first_tree pts q = (if pts = [] then None else Some 0)"

definition zero_slots :: "nat \<Rightarrow> vec2" where
  "zero_slots k = (0, 0)"

text \<open>The indices that the clearing loop of the tail rejection reads: the content of
  slots 1 and up of \<^verbatim>\<open>max_index\<close> after the tracking loop.\<close>

definition trimmed_indices :: "vec2 list \<Rightarrow> vec2 list \<Rightarrow> nat set" where
  "trimmed_indices scan near = set (drop 1 (snd (farthest_slots (residuals scan near))))"

text \<open>The invariant of the tracking loop after \<open>m\<close> distances: slots 1 and up of
  \<^verbatim>\<open>max_distance\<close> ascend, each holds at most the distance of the index beside it, and
  every index seen so far either sits in one of these slots with its distance or is no
  farther than any of them.\<close>

definition slots_inv :: "real list \<Rightarrow> nat \<Rightarrow> real list \<times> nat list \<Rightarrow> bool" where
  "slots_inv D m st =
     (case st of (md, mi) \<Rightarrow>
        length mi = length md \<and>
        (\<forall>k k'. 1 \<le> k \<and> k \<le> k' \<and> k' < length md \<longrightarrow> md ! k \<le> md ! k') \<and>
        (\<forall>k. 1 \<le> k \<and> k < length md \<longrightarrow> mi ! k < length D \<and> md ! k \<le> D ! (mi ! k)) \<and>
        (\<forall>x < m. (\<exists>k. 1 \<le> k \<and> k < length md \<and> mi ! k = x \<and> md ! k = D ! x) \<or>
                 (\<forall>k. 1 \<le> k \<and> k < length md \<longrightarrow> D ! x \<le> md ! k)))"

text \<open>A second invariant of the tracking loop after \<open>m\<close> distances: a slot from 1 up
  either is as initialised (distance 0, index 0) or holds a positive distance together
  with the index, below \<open>m\<close>, that has this distance; two slots with positive distances
  hold different indices.\<close>

definition slots_own :: "real list \<Rightarrow> nat \<Rightarrow> real list \<times> nat list \<Rightarrow> bool" where
  "slots_own D m st =
     (case st of (md, mi) \<Rightarrow>
        length mi = length md \<and>
        (\<forall>k. 1 \<le> k \<and> k < length md \<longrightarrow>
           (md ! k = 0 \<and> mi ! k = 0) \<or> (0 < md ! k \<and> mi ! k < m \<and> md ! k = D ! (mi ! k))) \<and>
        (\<forall>k k'. 1 \<le> k \<and> k < k' \<and> k' < length md \<and> 0 < md ! k \<and> 0 < md ! k' \<longrightarrow>
           mi ! k \<noteq> mi ! k'))"

section \<open>Properties\<close>

subsection \<open>Angle normalisation\<close>

lemma wrap_up_fix: "- pi \<le> t \<Longrightarrow> wrap_up t = t"
  by (subst wrap_up.simps) simp

lemma wrap_down_fix: "t \<le> pi \<Longrightarrow> wrap_down t = t"
  by (subst wrap_down.simps) simp

lemma normalize_theta_fix: "- pi \<le> t \<Longrightarrow> t \<le> pi \<Longrightarrow> normalize_theta t = t"
  by (simp add: normalize_theta_def wrap_up_fix wrap_down_fix)

lemma wrap_up_lower: "- pi \<le> wrap_up t"
  by (induction t rule: wrap_up.induct) (subst wrap_up.simps, simp)

lemma wrap_up_upper: "t \<le> pi \<Longrightarrow> wrap_up t \<le> pi"
proof (induction t rule: wrap_up.induct)
  case (1 t)
  show ?case
  proof (cases "t < - pi")
    case True
    then have "t + 2 * pi \<le> pi" by simp
    with 1 True show ?thesis by (subst wrap_up.simps) simp
  next
    case False
    with 1 show ?thesis by (subst wrap_up.simps) simp
  qed
qed

lemma wrap_down_upper: "wrap_down t \<le> pi"
  by (induction t rule: wrap_down.induct) (subst wrap_down.simps, simp)

lemma wrap_down_lower: "- pi \<le> t \<Longrightarrow> - pi \<le> wrap_down t"
proof (induction t rule: wrap_down.induct)
  case (1 t)
  show ?case
  proof (cases "pi < t")
    case True
    then have "- pi \<le> t - 2 * pi" by simp
    with 1 True show ?thesis by (subst wrap_down.simps) simp
  next
    case False
    with 1 show ?thesis by (subst wrap_down.simps) simp
  qed
qed

lemma normalize_theta_range: "- pi \<le> normalize_theta t \<and> normalize_theta t \<le> pi"
  by (simp add: normalize_theta_def wrap_down_upper wrap_down_lower wrap_up_lower)

lemma wrap_up_shift: "\<exists>k::nat. wrap_up t = t + 2 * pi * real k"
proof (induction t rule: wrap_up.induct)
  case (1 t)
  show ?case
  proof (cases "t < - pi")
    case True
    with 1 obtain k :: nat where "wrap_up (t + 2 * pi) = t + 2 * pi + 2 * pi * real k" by blast
    with True have "wrap_up t = t + 2 * pi * real (Suc k)"
      by (subst wrap_up.simps) (simp add: algebra_simps)
    then show ?thesis by blast
  next
    case False
    then have "wrap_up t = t + 2 * pi * real (0::nat)" by (subst wrap_up.simps) simp
    then show ?thesis by blast
  qed
qed

lemma wrap_down_shift: "\<exists>k::nat. wrap_down t = t - 2 * pi * real k"
proof (induction t rule: wrap_down.induct)
  case (1 t)
  show ?case
  proof (cases "pi < t")
    case True
    with 1 obtain k :: nat where "wrap_down (t - 2 * pi) = t - 2 * pi - 2 * pi * real k" by blast
    with True have "wrap_down t = t - 2 * pi * real (Suc k)"
      by (subst wrap_down.simps) (simp add: algebra_simps)
    then show ?thesis by blast
  next
    case False
    then have "wrap_down t = t - 2 * pi * real (0::nat)" by (subst wrap_down.simps) simp
    then show ?thesis by blast
  qed
qed

lemma normalize_theta_shift: "\<exists>k::int. normalize_theta t = t + 2 * pi * of_int k"
proof -
  obtain m :: nat where m: "wrap_up t = t + 2 * pi * real m" using wrap_up_shift by blast
  obtain n :: nat where n: "wrap_down (wrap_up t) = wrap_up t - 2 * pi * real n"
    using wrap_down_shift by blast
  have "normalize_theta t = wrap_up t - 2 * pi * real n"
    by (simp only: normalize_theta_def n)
  also have "\<dots> = t + 2 * pi * real m - 2 * pi * real n"
    by (simp only: m)
  also have "\<dots> = t + 2 * pi * of_int (int m - int n)"
    by (simp add: algebra_simps)
  finally show ?thesis by blast
qed

lemma cos_normalize_theta [simp]: "cos (normalize_theta t) = cos t"
proof -
  obtain k :: int where "normalize_theta t = t + 2 * pi * of_int k"
    using normalize_theta_shift by blast
  then show ?thesis by (simp add: cos_add)
qed

lemma sin_normalize_theta [simp]: "sin (normalize_theta t) = sin t"
proof -
  obtain k :: int where "normalize_theta t = t + 2 * pi * of_int k"
    using normalize_theta_shift by blast
  then show ?thesis by (simp add: sin_add)
qed

lemma normalize_theta_0 [simp]: "normalize_theta 0 = 0"
  by (rule normalize_theta_fix) simp_all






subsection \<open>Composition and difference of poses\<close>

lemma rotate2d_back: "rotate2d t (rotate2d (- t) v) = v"
proof -
  have c: "cos t * (cos t * u) + sin t * (sin t * u) = u" for u :: real
  proof -
    have "cos t * (cos t * u) + sin t * (sin t * u) = (cos t * cos t + sin t * sin t) * u"
      by (simp only: distrib_right mult.assoc)
    then show ?thesis by (simp only: sin_cos_squared_add3 mult_1)
  qed
  have "fst (rotate2d t (rotate2d (- t) v)) = fst v"
    using c [of "fst v"] by (simp add: rotate2d_def algebra_simps)
  moreover have "snd (rotate2d t (rotate2d (- t) v)) = snd v"
    using c [of "snd v"] by (simp add: rotate2d_def algebra_simps)
  ultimately show ?thesis by (simp add: prod_eq_iff)
qed

lemma rotate2d_vadd: "rotate2d t (vadd u v) = vadd (rotate2d t u) (rotate2d t v)"
  by (simp add: rotate2d_def vadd_def algebra_simps)

lemma pos_Pose2D_add: "pos (Pose2D_add p q) = vadd (pos p) (rotate2d (pose_theta p) (pos q))"
  by (simp add: Pose2D_add_def Pose2D_def pos_def Let_def vadd_def)

lemma pos_inverse_pose: "pos (inverse_pose p) = rotate2d (- pose_theta p) (- pose_x p, - pose_y p)"
  by (simp add: inverse_pose_def Pose2D_def pos_def Let_def)

lemma rotate2d_normalize [simp]: "rotate2d (normalize_theta t) v = rotate2d t v"
  by (simp add: rotate2d_def)

lemma theta_inverse_pose: "pose_theta (inverse_pose p) = normalize_theta (- pose_theta p)"
  by (simp add: inverse_pose_def Pose2D_def Let_def)

lemma theta_Pose2D_add: "pose_theta (Pose2D_add p q) = normalize_theta (pose_theta p + pose_theta q)"
  by (simp add: Pose2D_add_def Pose2D_def Let_def)

lemma pos_add_sub: "pos (Pose2D_add b (Pose2D_sub a b)) = pos a"
proof -
  have "pos (Pose2D_add b (Pose2D_sub a b)) =
        vadd (pos b) (rotate2d (pose_theta b)
          (vadd (rotate2d (- pose_theta b) (- pose_x b, - pose_y b))
                (rotate2d (- pose_theta b) (pos a))))"
    by (simp add: Pose2D_sub_def pos_Pose2D_add pos_inverse_pose theta_inverse_pose)
  also have "\<dots> = vadd (pos b) (vadd (- pose_x b, - pose_y b) (pos a))"
    by (simp only: rotate2d_vadd rotate2d_back)
  also have "\<dots> = pos a"
    by (simp add: vadd_def pos_def)
  finally show ?thesis .
qed

lemma theta_add_sub:
  "\<exists>k::int. pose_theta (Pose2D_add b (Pose2D_sub a b)) = pose_theta a + 2 * pi * of_int k"
proof -
  obtain k1 :: int where k1: "normalize_theta (- pose_theta b) = - pose_theta b + 2 * pi * of_int k1"
    using normalize_theta_shift by blast
  obtain k2 :: int where k2: "normalize_theta (normalize_theta (- pose_theta b) + pose_theta a)
      = normalize_theta (- pose_theta b) + pose_theta a + 2 * pi * of_int k2"
    using normalize_theta_shift by blast
  obtain k3 :: int where k3: "normalize_theta (pose_theta b + normalize_theta (normalize_theta (- pose_theta b) + pose_theta a))
      = pose_theta b + normalize_theta (normalize_theta (- pose_theta b) + pose_theta a) + 2 * pi * of_int k3"
    using normalize_theta_shift by blast
  have "pose_theta (Pose2D_add b (Pose2D_sub a b)) =
        normalize_theta (pose_theta b + normalize_theta (normalize_theta (- pose_theta b) + pose_theta a))"
    by (simp add: Pose2D_sub_def theta_Pose2D_add theta_inverse_pose)
  also have "\<dots> = pose_theta b + normalize_theta (normalize_theta (- pose_theta b) + pose_theta a)
      + 2 * pi * of_int k3"
    by (rule k3)
  also have "\<dots> = pose_theta b + (normalize_theta (- pose_theta b) + pose_theta a + 2 * pi * of_int k2)
      + 2 * pi * of_int k3"
    by (simp only: k2)
  also have "\<dots> = pose_theta b + (- pose_theta b + 2 * pi * of_int k1 + pose_theta a + 2 * pi * of_int k2)
      + 2 * pi * of_int k3"
    by (simp only: k1)
  also have "\<dots> = pose_theta a + 2 * pi * of_int (k1 + k2 + k3)"
    by (simp add: algebra_simps)
  finally show ?thesis by blast
qed

lemma pi_cancel_le: "pi * a \<le> pi * b \<Longrightarrow> a \<le> b"
  using pi_gt_zero by simp

lemma pi_cancel_less: "pi * a < pi * b \<Longrightarrow> a < b"
  using pi_gt_zero by simp

lemma pi_bounds_le: "- pi \<le> pi * a \<Longrightarrow> pi * a \<le> pi \<Longrightarrow> - 1 \<le> a \<and> a \<le> 1"
proof -
  assume "- pi \<le> pi * a" and "pi * a \<le> pi"
  then have "pi * (- 1) \<le> pi * a" and "pi * a \<le> pi * 1" by simp_all
  then show ?thesis using pi_cancel_le by blast
qed

lemma pi_bounds_less: "- pi < pi * a \<Longrightarrow> pi * a < pi \<Longrightarrow> - 1 < a \<and> a < 1"
proof -
  assume "- pi < pi * a" and "pi * a < pi"
  then have "pi * (- 1) < pi * a" and "pi * a < pi * 1" by simp_all
  then show ?thesis using pi_cancel_less by blast
qed

lemma normalize_theta_period: "normalize_theta (2 * pi * of_int k) = 0"
proof -
  obtain j :: int where j: "normalize_theta (2 * pi * of_int k) = 2 * pi * of_int k + 2 * pi * of_int j"
    using normalize_theta_shift by blast
  have eq: "normalize_theta (2 * pi * of_int k) = 2 * pi * of_int (k + j)"
    by (simp only: j) (simp add: algebra_simps)
  have "- pi \<le> 2 * pi * of_int (k + j)" "2 * pi * of_int (k + j) \<le> pi"
    using normalize_theta_range [of "2 * pi * of_int k"] by (simp_all only: eq)
  moreover have "2 * pi * of_int (k + j) = pi * (2 * of_int (k + j))"
    by (simp only: mult.assoc mult.left_commute)
  ultimately have "- pi \<le> pi * (2 * of_int (k + j))" "pi * (2 * of_int (k + j)) \<le> pi"
    by (simp_all only:)
  then have "- 1 \<le> 2 * (of_int (k + j) :: real)" "2 * (of_int (k + j) :: real) \<le> 1"
    using pi_bounds_le by blast+
  then have "- 1 \<le> 2 * (k + j)" "2 * (k + j) \<le> 1"
    by linarith+
  then have "k + j = 0" by presburger
  then show ?thesis by (simp add: eq)
qed

lemma close_angles_equal:
  assumes "- pi < s" "s < pi" "- pi \<le> t" "t \<le> pi" "t = s + 2 * pi * of_int k"
  shows "t = s"
proof -
  have "- 2 * pi < 2 * pi * of_int k" "2 * pi * of_int k < 2 * pi"
    using assms by linarith+
  then have "- pi < pi * of_int k" "pi * of_int k < pi"
    by simp_all
  then have "- 1 < (of_int k :: real)" "(of_int k :: real) < 1"
    using pi_bounds_less by blast+
  then have "k = 0" by linarith
  with assms show ?thesis by simp
qed

text \<open>
  Claim C2, as stated: \<open>(a - b) + b \<approx> a\<close> for all poses. With \<open>a - b = b.inverse() + a\<close> the
  left side is \<open>b\<close> inverted, then \<open>a\<close>, then \<open>b\<close>, which is not \<open>a\<close> when \<open>b\<close> turns: for
  \<open>a = (1, 0, 0)\<close> and \<open>b = (0, 0, \<pi>/2)\<close> it is \<open>(0, -1, 0)\<close>, not within 1/2 of \<open>a\<close>.
\<close>

theorem sub_add_counterexample:
  "\<not> pose_approx (1 / 2)
       (Pose2D_add (Pose2D_sub \<lparr>pose_x = 1, pose_y = 0, pose_theta = 0\<rparr>
                               \<lparr>pose_x = 0, pose_y = 0, pose_theta = pi / 2\<rparr>)
                   \<lparr>pose_x = 0, pose_y = 0, pose_theta = pi / 2\<rparr>)
       \<lparr>pose_x = 1, pose_y = 0, pose_theta = 0\<rparr>"
proof -
  have n1: "normalize_theta (- (pi / 2)) = - (pi / 2)"
    by (rule normalize_theta_fix) (use pi_gt_zero in linarith)+
  have "pose_x (Pose2D_add (Pose2D_sub \<lparr>pose_x = 1, pose_y = 0, pose_theta = 0\<rparr>
                               \<lparr>pose_x = 0, pose_y = 0, pose_theta = pi / 2\<rparr>)
                   \<lparr>pose_x = 0, pose_y = 0, pose_theta = pi / 2\<rparr>) = 0"
    by (simp add: Pose2D_add_def Pose2D_sub_def inverse_pose_def Pose2D_def Let_def
        rotate2d_def vadd_def n1)
  then show ?thesis by (simp add: pose_approx_def)
qed

text \<open>
  Claim C2, amended: composing in the other order recovers \<open>a\<close>: \<open>b + (a - b)\<close> has the
  coordinates of \<open>a\<close> and an angle equal to that of \<open>a\<close> modulo a full turn, and it is \<open>a\<close>
  itself when the angle of \<open>a\<close> lies strictly between \<open>-\<pi>\<close> and \<open>\<pi>\<close>.
\<close>

theorem add_sub_recovers:
  "pose_approx 0 (Pose2D_add b (Pose2D_sub a b)) a \<and>
   (- pi < pose_theta a \<and> pose_theta a < pi \<longrightarrow> Pose2D_add b (Pose2D_sub a b) = a)"
proof -
  let ?r = "Pose2D_add b (Pose2D_sub a b)"
  have xy: "pose_x ?r = pose_x a" "pose_y ?r = pose_y a"
    using pos_add_sub [of b a] by (simp_all add: pos_def)
  obtain k :: int where k: "pose_theta ?r = pose_theta a + 2 * pi * of_int k"
    using theta_add_sub by blast
  have rng: "- pi \<le> pose_theta ?r" "pose_theta ?r \<le> pi"
    using normalize_theta_range by (simp_all add: theta_Pose2D_add)
  have "normalize_theta (pose_theta ?r - pose_theta a) = 0"
    using normalize_theta_period [of k] by (simp add: k)
  then have approx: "pose_approx 0 ?r a"
    by (simp add: pose_approx_def xy)
  have "?r = a" if "- pi < pose_theta a" "pose_theta a < pi"
  proof -
    have "pose_theta ?r = pose_theta a"
      using close_angles_equal [OF that rng k] .
    then show ?thesis using xy by simp
  qed
  with approx show ?thesis by blast
qed

theorem add_sub_recovers_witness:
  "- pi < pose_theta \<lparr>pose_x = 1, pose_y = 0, pose_theta = 0\<rparr> \<and>
   pose_theta \<lparr>pose_x = 1, pose_y = 0, pose_theta = 0\<rparr> < pi \<and>
   Pose2D_add \<lparr>pose_x = 0, pose_y = 0, pose_theta = pi / 2\<rparr>
     (Pose2D_sub \<lparr>pose_x = 1, pose_y = 0, pose_theta = 0\<rparr>
                 \<lparr>pose_x = 0, pose_y = 0, pose_theta = pi / 2\<rparr>)
   = \<lparr>pose_x = 1, pose_y = 0, pose_theta = 0\<rparr>"
  using add_sub_recovers [of "\<lparr>pose_x = 0, pose_y = 0, pose_theta = pi / 2\<rparr>"
      "\<lparr>pose_x = 1, pose_y = 0, pose_theta = 0\<rparr>"]
  by simp

subsection \<open>Thresholds and the encoder model\<close>




subsection \<open>ICP: the exits\<close>

lemma vnorm_axis [simp]: "vnorm (a, 0) = \<bar>a\<bar>"
  by (simp add: vnorm_def)

text \<open>
  Claim C5: when the reference scan or the moving scan has fewer than two points, ICP
  returns the initial guess, the pose of the moving scan minus the pose of the reference
  scan, and leaves the cell behind \<^verbatim>\<open>ratio\<close> as it was.
\<close>

theorem ICP_degenerate:
  "length (ls_points_self a) < 2 \<or> length (ls_points_self b) < 2 \<Longrightarrow>
   ICP tree uninit a b ratio =
     Some \<lparr>icp_pose = Pose2D_sub (ls_pose b) (ls_pose a), icp_ratio = ratio,
           icp_log = [''Error: scan.size() < 2''], icp_this = a, icp_other = b\<rparr>"
  by (simp add: ICP_def get_pose_def Let_def)

theorem ICP_degenerate_witness:
  "(length (ls_points_self (example_scan [(1, 0)] Pose2D_default)) < 2 \<or>
    length (ls_points_self (example_scan [(1, 0), (2, 0)] Pose2D_default)) < 2) \<and>
   ICP first_tree zero_slots (example_scan [(1, 0)] Pose2D_default)
       (example_scan [(1, 0), (2, 0)] Pose2D_default) (Holds 5) =
     Some \<lparr>icp_pose = Pose2D_default, icp_ratio = Holds 5,
           icp_log = [''Error: scan.size() < 2''],
           icp_this = example_scan [(1, 0)] Pose2D_default,
           icp_other = example_scan [(1, 0), (2, 0)] Pose2D_default\<rparr>"
  using ICP_degenerate [of "example_scan [(1, 0)] Pose2D_default"
      "example_scan [(1, 0), (2, 0)] Pose2D_default" first_tree zero_slots "Holds 5"]
  by (simp add: example_scan_def Pose2D_default_def Pose2D_sub_def Pose2D_add_def
      inverse_pose_def Pose2D_def Let_def rotate2d_def vadd_def)

lemma store_ratio_twice [simp]: "store_ratio (store_ratio r v) w = store_ratio r w"
  by (cases r) (simp_all add: store_ratio_def)

lemma search_nearest_first_none:
  "tree scan_ref (scan ! i) = None \<Longrightarrow>
   search_nearest tree scan_ref scan mt dt (i # rest) st = NoMatch"
  by (cases st) simp

lemma icp_iteration_empty_tree:
  assumes "scan_origin \<noteq> []" and "\<forall>q. tree scan_ref q = None"
  shows "icp_iteration tree mt dt scan_ref scan_origin reference_pose p ratio =
         Return Pose2D_default (store_ratio ratio 0) []"
proof -
  let ?scan = "transform scan_origin p"
  have "0 < length ?scan" using assms(1) by (simp add: transform_def)
  then have "[0..<length ?scan] = 0 # [1..<length ?scan]"
    by (simp add: upt_conv_Cons)
  moreover have "tree scan_ref (?scan ! 0) = None" using assms(2) by blast
  ultimately have "search_nearest tree scan_ref ?scan mt dt [0..<length ?scan]
      (?scan, replicate (length scan_ref) [], replicate (length ?scan) False, 0) = NoMatch"
    by (simp only: search_nearest_first_none)
  then show ?thesis by (simp add: icp_iteration_def Let_def)
qed

lemma icp_loop_numeral:
  "icp_loop (numeral k) tree mt dt scan_ref scan_origin reference_pose p ratio =
     (case icp_iteration tree mt dt scan_ref scan_origin reference_pose p ratio of
        Return q r msgs \<Rightarrow> Some (q, r, msgs)
      | OutOfBounds \<Rightarrow> None
      | Continue q r \<Rightarrow>
          icp_loop (pred_numeral k) tree mt dt scan_ref scan_origin reference_pose q r)"
  by (simp add: numeral_eq_Suc)

lemma icp_loop_no_valid_point:
  "icp_loop n tree mt dt scan_ref scan_origin reference_pose p ratio = Some (q, r, msgs) \<Longrightarrow>
   msgs \<noteq> [] \<Longrightarrow> q = reference_pose \<and> r = store_ratio ratio 0"
proof (induction n arbitrary: p ratio)
  case 0
  then show ?case by simp
next
  case (Suc n)
  show ?case
  proof (cases "icp_iteration tree mt dt scan_ref scan_origin reference_pose p ratio")
    case (Return q' r' msgs')
    with Suc.prems have eq: "q' = q" "r' = r" "msgs' = msgs" by simp_all
    from Return Suc.prems(2) show ?thesis
      unfolding eq icp_iteration_def Let_def
      by (auto split: search.splits prod.splits if_splits)
  next
    case (Continue q' r')
    with Suc.prems have "icp_loop n tree mt dt scan_ref scan_origin reference_pose q' r' = Some (q, r, msgs)"
      by simp
    from Suc.IH [OF this Suc.prems(2)] have "q = reference_pose" "r = store_ratio r' 0" by simp_all
    moreover from Continue have "store_ratio r' 0 = store_ratio ratio 0"
      unfolding icp_iteration_def Let_def
      by (auto split: search.splits prod.splits if_splits)
    ultimately show ?thesis by simp
  next
    case OutOfBounds
    with Suc.prems show ?thesis by simp
  qed
qed

subsection \<open>ICP: two runs on concrete scans\<close>

text \<open>The reference scan has two points at the origin, the moving scan two points at
  \<open>(5, 0)\<close>, both scans carry the identity pose. With the tree that answers index 0 every
  correspondence has length 5 and is rejected by \<^verbatim>\<open>dist_threshold_\<close>; with the tree that
  answers nothing the first query ends the call.\<close>

lemma upt_2_14: "[2..<14] = [2,3,4,5,6,7,8,9,10,11,12,13::nat]"
  by (simp add: upt_conv_Cons)

lemma upt_0_7: "[0..<7] = [0,1,2,3,4,5,6::nat]"
  by (simp add: upt_conv_Cons upt_rec_numeral)

lemma densify_two:
  "densify zero_slots [(0, 0), (0, 0)] = replicate 14 (0, 0)"
  apply (simp add: densify_def insert_num_def zero_slots_def vadd_def vsub_def vscale_def vdiv_def upt_2_14 upt_0_7 del: upt_Suc)
  apply (simp add: numeral_eq_Suc zero_slots_def)
  done

lemma transform_default: "transform v Pose2D_default = v"
  by (simp add: transform_def Pose2D_default_def rotate2d_def vadd_def)

lemma Pose2D_sub_default: "Pose2D_sub Pose2D_default Pose2D_default = Pose2D_default"
  by (simp add: Pose2D_default_def Pose2D_sub_def Pose2D_add_def
      inverse_pose_def Pose2D_def Let_def rotate2d_def vadd_def)

lemma search_far:
  "search_nearest first_tree (replicate 14 (0, 0)) [(5, 0), (5, 0)] (1 / 10) 1 [0..<length [(5::real, 0::real), (5, 0)]]
     ([(5, 0), (5, 0)], replicate (length (replicate 14 (0::real, 0::real))) [], replicate (length [(5::real, 0::real), (5, 0)]) False, 0)
   = Found ([(5, 0), (5, 0)], [[0, 1], [], [], [], [], [], [], [], [], [], [], [], [], []], [False, False], 0)"
  by (simp add: first_tree_def vsub_def Let_def numeral_eq_Suc)

lemma disable_far: "disable_shared [(5, 0), (5, 0)] [[0, 1], [], [], [], [], [], [], [], [], [], [], [], [], []] ([(5, 0), (5, 0)], [False, False])
   = ([(5, 0), (5, 0)], [False, False])"
  by (simp add: disable_shared_def)

lemma tail_far: "tail_reject [(5, 0), (5, 0)] [(5, 0), (5, 0)] [False, False] = [False, False]"
  by (simp add: tail_reject_def residuals_def farthest_slots_def clear_slots_def)

lemma center_far: "calc_center [(5, 0), (5, 0)] [False, False] = ((0, 0), 0)"
  by (simp add: calc_center_def)

lemma iteration_far: "icp_iteration first_tree (1 / 10) 1 (replicate 14 (0, 0)) [(5, 0), (5, 0)]
      Pose2D_default Pose2D_default (Holds 7) =
      Return Pose2D_default (Holds 0) [''Error: no valid point, return reference pose.'']"
  apply (simp only: icp_iteration_def transform_default Let_def search_far search.case prod.case
     disable_far tail_far center_far)
  apply (simp add: store_ratio_def)
  done

lemma no_correspondence_run:
  "ICP first_tree zero_slots (example_scan [(0, 0), (0, 0)] Pose2D_default)
       (example_scan [(5, 0), (5, 0)] Pose2D_default) (Holds 7) =
     Some \<lparr>icp_pose = Pose2D_default, icp_ratio = Holds 0,
           icp_log = [''Error: no valid point, return reference pose.''],
           icp_this = example_scan [(0, 0), (0, 0)] Pose2D_default,
           icp_other = example_scan [(5, 0), (5, 0)] Pose2D_default\<rparr>"
proof -
  have "icp_loop 20 first_tree (1 / 10) 1 (replicate 14 (0, 0)) [(5, 0), (5, 0)]
      Pose2D_default Pose2D_default (Holds 7) =
      Some (Pose2D_default, Holds 0, [''Error: no valid point, return reference pose.''])"
    by (simp only: icp_loop_numeral iteration_far icp_step.case)
  then show ?thesis
    by (simp add: ICP_def example_scan_def get_pose_def Pose2D_sub_default densify_two Let_def)
qed

lemma empty_tree_run:
  "ICP empty_tree zero_slots (example_scan [(0, 0), (0, 0)] Pose2D_default)
       (example_scan [(5, 0), (5, 0)] Pose2D_default) (Holds 7) =
     Some \<lparr>icp_pose = Pose2D_default, icp_ratio = Holds 0, icp_log = [],
           icp_this = example_scan [(0, 0), (0, 0)] Pose2D_default,
           icp_other = example_scan [(5, 0), (5, 0)] Pose2D_default\<rparr>"
proof -
  have "icp_iteration empty_tree (1 / 10) 1 (replicate 14 (0, 0)) [(5, 0), (5, 0)]
      Pose2D_default Pose2D_default (Holds 7) = Return Pose2D_default (Holds 0) []"
    by (simp add: icp_iteration_empty_tree empty_tree_def store_ratio_def)
  then have "icp_loop 20 empty_tree (1 / 10) 1 (replicate 14 (0, 0)) [(5, 0), (5, 0)]
      Pose2D_default Pose2D_default (Holds 7) = Some (Pose2D_default, Holds 0, [])"
    by (simp only: icp_loop_numeral icp_step.case)
  then show ?thesis
    by (simp add: ICP_def example_scan_def get_pose_def Pose2D_sub_default densify_two Let_def)
qed

text \<open>
  Claim C6, as stated: the return of the empty-tree exit, identity pose and ratio 0, is
  told apart from the return of the exit without correspondences, initial guess and
  ratio 0. On the two scans above the initial guess is the identity pose, and the two
  exits return the same pose and the same ratio; only the line on \<^verbatim>\<open>std::cout\<close>
  differs.
\<close>

theorem empty_tree_sentinel_counterexample:
  "map_option (\<lambda>r. (icp_pose r, icp_ratio r, icp_log r))
     (ICP empty_tree zero_slots (example_scan [(0, 0), (0, 0)] Pose2D_default)
        (example_scan [(5, 0), (5, 0)] Pose2D_default) (Holds 7)) =
     Some (Pose2D_default, Holds 0, []) \<and>
   map_option (\<lambda>r. (icp_pose r, icp_ratio r, icp_log r))
     (ICP first_tree zero_slots (example_scan [(0, 0), (0, 0)] Pose2D_default)
        (example_scan [(5, 0), (5, 0)] Pose2D_default) (Holds 7)) =
     Some (Pose2D_default, Holds 0, [''Error: no valid point, return reference pose.''])"
  by (simp only: empty_tree_run no_correspondence_run option.map icp_result.simps simp_thms)

text \<open>
  Claim C6, amended: when the tree answers no query, ICP on two scans of at least two
  points returns the identity pose, sets the ratio, when one is supplied, to 0, and
  prints nothing. The exit without correspondences, which prints its error line, returns
  the initial guess and ratio 0; so the two returns differ only when the initial guess is
  not the identity pose.
\<close>

theorem ICP_empty_tree:
  "(2 \<le> length (ls_points_self a) \<and> 2 \<le> length (ls_points_self b) \<and>
    (\<forall>q. tree (densify uninit (ls_points_self a)) q = None) \<longrightarrow>
    ICP tree uninit a b ratio =
      Some \<lparr>icp_pose = Pose2D_default, icp_ratio = store_ratio ratio 0, icp_log = [],
            icp_this = a, icp_other = b\<rparr>) \<and>
   (ICP tree' uninit a b ratio = Some r \<and>
    icp_log r = [''Error: no valid point, return reference pose.''] \<longrightarrow>
    icp_pose r = Pose2D_sub (ls_pose b) (ls_pose a) \<and> icp_ratio r = store_ratio ratio 0)"
proof (intro conjI impI)
  assume h: "2 \<le> length (ls_points_self a) \<and> 2 \<le> length (ls_points_self b) \<and>
    (\<forall>q. tree (densify uninit (ls_points_self a)) q = None)"
  then have ne: "ls_points_self b \<noteq> []" by auto
  from h have none: "\<forall>q. tree (densify uninit (ls_points_self a)) q = None" by blast
  have "icp_loop 20 tree (ls_match_threshold a) (ls_dist_threshold a)
          (densify uninit (ls_points_self a)) (ls_points_self b)
          (Pose2D_sub (ls_pose b) (ls_pose a)) (Pose2D_sub (ls_pose b) (ls_pose a)) ratio =
        Some (Pose2D_default, store_ratio ratio 0, [])"
    by (simp only: icp_loop_numeral icp_step.case
        icp_iteration_empty_tree [of "ls_points_self b" tree "densify uninit (ls_points_self a)", OF ne none])
  then show "ICP tree uninit a b ratio =
      Some \<lparr>icp_pose = Pose2D_default, icp_ratio = store_ratio ratio 0, icp_log = [],
            icp_this = a, icp_other = b\<rparr>"
    using h by (simp add: ICP_def get_pose_def Let_def)
next
  assume h: "ICP tree' uninit a b ratio = Some r \<and>
    icp_log r = [''Error: no valid point, return reference pose.'']"
  show "icp_pose r = Pose2D_sub (ls_pose b) (ls_pose a)"
    using h icp_loop_no_valid_point
    by (fastforce simp: ICP_def get_pose_def Let_def split: if_splits option.splits)
  show "icp_ratio r = store_ratio ratio 0"
    using h icp_loop_no_valid_point
    by (fastforce simp: ICP_def get_pose_def Let_def split: if_splits option.splits)
qed

theorem ICP_empty_tree_witness:
  "2 \<le> length (ls_points_self (example_scan [(0, 0), (0, 0)] Pose2D_default)) \<and>
   2 \<le> length (ls_points_self (example_scan [(5, 0), (5, 0)] Pose2D_default)) \<and>
   (\<forall>q. empty_tree (densify zero_slots
           (ls_points_self (example_scan [(0, 0), (0, 0)] Pose2D_default))) q = None) \<and>
   ICP empty_tree zero_slots (example_scan [(0, 0), (0, 0)] Pose2D_default)
       (example_scan [(5, 0), (5, 0)] Pose2D_default) (Holds 7) =
     Some \<lparr>icp_pose = Pose2D_default, icp_ratio = Holds 0, icp_log = [],
           icp_this = example_scan [(0, 0), (0, 0)] Pose2D_default,
           icp_other = example_scan [(5, 0), (5, 0)] Pose2D_default\<rparr> \<and>
   ICP first_tree zero_slots (example_scan [(0, 0), (0, 0)] Pose2D_default)
       (example_scan [(5, 0), (5, 0)] Pose2D_default) (Holds 7) =
     Some \<lparr>icp_pose = Pose2D_default, icp_ratio = Holds 0,
           icp_log = [''Error: no valid point, return reference pose.''],
           icp_this = example_scan [(0, 0), (0, 0)] Pose2D_default,
           icp_other = example_scan [(5, 0), (5, 0)] Pose2D_default\<rparr> \<and>
   Pose2D_sub (ls_pose (example_scan [(5, 0), (5, 0)] Pose2D_default))
              (ls_pose (example_scan [(0, 0), (0, 0)] Pose2D_default)) = Pose2D_default"
  using ICP_empty_tree [of "example_scan [(0, 0), (0, 0)] Pose2D_default"
      "example_scan [(5, 0), (5, 0)] Pose2D_default" empty_tree zero_slots "Holds 7" first_tree
      "\<lparr>icp_pose = Pose2D_default, icp_ratio = Holds 0,
           icp_log = [''Error: no valid point, return reference pose.''],
           icp_this = example_scan [(0, 0), (0, 0)] Pose2D_default,
           icp_other = example_scan [(5, 0), (5, 0)] Pose2D_default\<rparr>"]
    no_correspondence_run
  by (simp add: example_scan_def empty_tree_def store_ratio_def)

subsection \<open>ICP: the scans are left as they were\<close>

lemma search_nearest_in_range:
  "answers_in_range tree scan_ref \<Longrightarrow> search_nearest tree scan_ref scan mt dt idxs st \<noteq> BadIndex"
proof (induction idxs arbitrary: st)
  case Nil
  then show ?case by simp
next
  case (Cons i idxs)
  obtain near trace_back msk match_count where st: "st = (near, trace_back, msk, match_count)"
    by (cases st) auto
  show ?case
  proof (cases "tree scan_ref (scan ! i)")
    case None
    then show ?thesis by (simp add: st)
  next
    case (Some k)
    with Cons.prems have "k < length scan_ref" unfolding answers_in_range_def by blast
    with Some Cons.IH [OF Cons.prems] show ?thesis by (simp add: st Let_def)
  qed
qed

lemma icp_iteration_in_range:
  "answers_in_range tree scan_ref \<Longrightarrow>
   icp_iteration tree mt dt scan_ref scan_origin reference_pose p ratio \<noteq> OutOfBounds"
  using search_nearest_in_range [of tree scan_ref]
  by (auto simp: icp_iteration_def Let_def split: search.splits prod.splits)

lemma icp_loop_in_range:
  "answers_in_range tree scan_ref \<Longrightarrow>
   icp_loop n tree mt dt scan_ref scan_origin reference_pose p ratio \<noteq> None"
proof (induction n arbitrary: p ratio)
  case 0
  then show ?case by simp
next
  case (Suc n)
  from icp_iteration_in_range [OF Suc.prems] Suc.IH [OF Suc.prems]
  show ?case by (simp split: icp_step.splits)
qed

text \<open>
  Claim C10: a call \<^verbatim>\<open>a.ICP(b, ratio)\<close> that returns leaves every field of \<open>a\<close> and of \<open>b\<close>
  as it was; and the call returns whenever the tree answers in range on the densified
  reference scan.
\<close>

theorem ICP_leaves_scans:
  "(ICP tree uninit a b ratio = Some r \<longrightarrow> icp_this r = a \<and> icp_other r = b) \<and>
   (answers_in_range tree (densify uninit (ls_points_self a)) \<longrightarrow>
    ICP tree uninit a b ratio \<noteq> None)"
proof (intro conjI impI)
  assume "ICP tree uninit a b ratio = Some r"
  then show "icp_this r = a" "icp_other r = b"
    by (auto simp: ICP_def Let_def split: if_splits option.splits)
next
  assume "answers_in_range tree (densify uninit (ls_points_self a))"
  then have "icp_loop 20 tree (ls_match_threshold a) (ls_dist_threshold a)
      (densify uninit (ls_points_self a)) (ls_points_self b)
      (Pose2D_sub (get_pose b) (ls_pose a)) (Pose2D_sub (get_pose b) (ls_pose a)) ratio \<noteq> None"
    by (rule icp_loop_in_range)
  then show "ICP tree uninit a b ratio \<noteq> None"
    by (auto simp: ICP_def Let_def split: option.splits)
qed

theorem ICP_leaves_scans_witness:
  "ICP first_tree zero_slots (example_scan [(0, 0), (0, 0)] Pose2D_default)
       (example_scan [(5, 0), (5, 0)] Pose2D_default) (Holds 7) =
     Some \<lparr>icp_pose = Pose2D_default, icp_ratio = Holds 0,
           icp_log = [''Error: no valid point, return reference pose.''],
           icp_this = example_scan [(0, 0), (0, 0)] Pose2D_default,
           icp_other = example_scan [(5, 0), (5, 0)] Pose2D_default\<rparr> \<and>
   answers_in_range first_tree
     (densify zero_slots (ls_points_self (example_scan [(0, 0), (0, 0)] Pose2D_default))) \<and>
   ICP first_tree zero_slots (example_scan [(0, 0), (0, 0)] Pose2D_default)
       (example_scan [(5, 0), (5, 0)] Pose2D_default) (Holds 7) \<noteq> None"
  using ICP_leaves_scans [of first_tree zero_slots "example_scan [(0, 0), (0, 0)] Pose2D_default"
      "example_scan [(5, 0), (5, 0)] Pose2D_default" "Holds 7"
      "\<lparr>icp_pose = Pose2D_default, icp_ratio = Holds 0,
           icp_log = [''Error: no valid point, return reference pose.''],
           icp_this = example_scan [(0, 0), (0, 0)] Pose2D_default,
           icp_other = example_scan [(5, 0), (5, 0)] Pose2D_default\<rparr>"]
    no_correspondence_run
  by (simp add: answers_in_range_def first_tree_def)

subsection \<open>The front-end: one laser scan\<close>








lemma first_scan:
  "slam_scans s = [] \<Longrightarrow>
   UpdatePoseWithLaserScan tree uninit scan s =
     Some (s\<lparr>slam_scans := [set_pose (slam_pose s) scan]\<rparr>,
           AddKeyScan 1 (slam_pose s) # fire_map_update s)"
  by (simp add: UpdatePoseWithLaserScan_def Let_def fire_map_update_def)









text \<open>The pose-update callback after a scan that is not the first: registered, it is the
  last thing the call does, once, with the new pose.\<close>

lemma later_scan_fires_pose_update:
  assumes "slam_scans s \<noteq> []" and "pose_update_callback s"
    and "UpdatePoseWithLaserScan tree uninit scan s = Some (s', evs)"
  shows "evs \<noteq> [] \<and> last evs = PoseUpdate (slam_pose s') \<and>
         pose_updates evs = [PoseUpdate (slam_pose s')]"
  using assms
  by (auto simp: UpdatePoseWithLaserScan_def Let_def fire_pose_update_def fire_map_update_def
      pose_updates_def filter_empty_conv
      split: prod.splits if_splits option.splits)

text \<open>
  Claim C1: every call of \<^verbatim>\<open>UpdatePoseWithLaserScan\<close> with a registered pose-update
  callback invokes it, the first scan included. The code returns from the first-scan
  branch right after the map-update callback: on a fresh \<^verbatim>\<open>Slam\<close> with both callbacks
  registered, the call logs the keyscan, invokes the map-update callback and nothing
  else.
\<close>

theorem first_scan_fires_no_pose_update:
  "UpdatePoseWithLaserScan first_tree zero_slots (example_scan [(1, 0), (0, 1)] Pose2D_default)
     (RegisterMapUpdateCallback (RegisterPoseUpdateCallback Slam)) =
     Some (\<lparr>slam_pose = Pose2D_default,
            slam_scans = [example_scan [(1, 0), (0, 1)] Pose2D_default],
            keyscan_threshold = 4 / 10, factor_threshold = 9 / 10,
            pose_update_callback = True, map_update_callback = True\<rparr>,
           [AddKeyScan 1 Pose2D_default, MapUpdate]) \<and>
   pose_updates [AddKeyScan 1 Pose2D_default, MapUpdate] = []"
  by (simp add: first_scan Slam_def RegisterMapUpdateCallback_def RegisterPoseUpdateCallback_def
      fire_map_update_def pose_updates_def set_pose_def example_scan_def)

subsection \<open>ICP: the tail rejection\<close>

text \<open>One pass of the inner loop inserts a distance into slots that ascend from slot 1:
  the slots below the place of insertion move down by one, slot 0 receives what falls
  out.\<close>

lemma slot_write:
  "k < length xs \<Longrightarrow>
   xs[j := d] ! k =
     (if k < j then xs ! k else if k < j then xs ! Suc k else if k = j then d else xs ! k)"
  by (simp add: nth_list_update)

lemma slot_shift_last:
  assumes "length xs = Suc (Suc j)" "k < Suc (Suc j)"
  shows "xs[j := xs ! Suc j, Suc j := d] ! k =
     (if k < j then xs ! k else if k < Suc j then xs ! Suc k
      else if k = Suc j then d else xs ! k)"
proof -
  consider "k < j" | "k = j" | "k = Suc j" using assms(2) by linarith
  then show ?thesis
  proof cases
    case 1
    then show ?thesis using assms by simp
  next
    case 2
    then show ?thesis using assms by simp
  next
    case 3
    then show ?thesis using assms by simp
  qed
qed

lemma slot_shift_merge:
  assumes "Suc j \<le> p" "k < length xs"
  shows "(if k < Suc j then xs[j := xs ! Suc j] ! k
          else if k < p then xs[j := xs ! Suc j] ! Suc k
          else if k = p then d else xs[j := xs ! Suc j] ! k) =
         (if k < j then xs ! k else if k < p then xs ! Suc k
          else if k = p then d else xs ! k)"
proof -
  consider "k < j" | "k = j" | "j < k" by linarith
  then show ?thesis
  proof cases
    case 1
    then show ?thesis using assms by simp
  next
    case 2
    then show ?thesis using assms by simp
  next
    case 3
    then show ?thesis using assms by simp
  qed
qed

lemma track_farthest_shape:
  assumes "length md = n" "length mi = n" "Suc j < n"
  shows "\<exists>p. j \<le> p \<and> p < n \<and>
           (\<forall>k. j < k \<and> k \<le> p \<longrightarrow> md ! k < d) \<and>
           (Suc p < n \<longrightarrow> d \<le> md ! Suc p) \<and>
           (\<forall>k < n. fst (track_farthest d i [Suc j..<n] (md, mi)) ! k =
              (if k < j then md ! k else if k < p then md ! Suc k
               else if k = p then d else md ! k)) \<and>
           (\<forall>k < n. snd (track_farthest d i [Suc j..<n] (md, mi)) ! k =
              (if k < j then mi ! k else if k < p then mi ! Suc k
               else if k = p then i else mi ! k))"
  using assms
proof (induction "n - j" arbitrary: j md mi)
  case 0
  then show ?case by simp
next
  case (Suc m)
  have upt: "[Suc j..<n] = Suc j # [Suc (Suc j)..<n]"
    using Suc.prems by (simp add: upt_conv_Cons)
  show ?case
  proof (cases "md ! Suc j < d")
    case False
    have "track_farthest d i [Suc j..<n] (md, mi) = (md[j := d], mi[j := i])"
      using False by (simp add: upt)
    then have r: "fst (track_farthest d i [Suc j..<n] (md, mi)) = md[j := d]"
      "snd (track_farthest d i [Suc j..<n] (md, mi)) = mi[j := i]"
      by simp_all
    have a: "j \<le> j" "j < n" using Suc.prems by simp_all
    have b: "\<forall>k. j < k \<and> k \<le> j \<longrightarrow> md ! k < d" by simp
    have c: "Suc j < n \<longrightarrow> d \<le> md ! Suc j" using False by simp
    have d1: "\<forall>k < n. fst (track_farthest d i [Suc j..<n] (md, mi)) ! k =
              (if k < j then md ! k else if k < j then md ! Suc k
               else if k = j then d else md ! k)"
      unfolding r using Suc.prems by (simp add: slot_write)
    have d2: "\<forall>k < n. snd (track_farthest d i [Suc j..<n] (md, mi)) ! k =
              (if k < j then mi ! k else if k < j then mi ! Suc k
               else if k = j then i else mi ! k)"
      unfolding r using Suc.prems by (simp add: slot_write)
    show ?thesis
      by (intro exI [of _ j] conjI; (rule a b c d1 d2))
  next
    case True
    show ?thesis
    proof (cases "Suc (Suc j) = n")
      case last: True
      then have nil: "[Suc (Suc j)..<n] = []" by simp
      have len: "length md = Suc (Suc j)" "length mi = Suc (Suc j)"
        using last Suc.prems by simp_all
      have "track_farthest d i [Suc j] (md, mi) =
          (md[j := md ! Suc j, Suc j := d], mi[j := mi ! Suc j, Suc j := i])"
        using True len by (simp add: Let_def)
      then have r: "fst (track_farthest d i [Suc j..<n] (md, mi)) = md[j := md ! Suc j, Suc j := d]"
        "snd (track_farthest d i [Suc j..<n] (md, mi)) = mi[j := mi ! Suc j, Suc j := i]"
        by (simp_all only: upt nil fst_conv snd_conv)
      have a: "j \<le> Suc j" "Suc j < n" using last by simp_all
      have b: "\<forall>k. j < k \<and> k \<le> Suc j \<longrightarrow> md ! k < d"
      proof (intro allI impI)
        fix k assume "j < k \<and> k \<le> Suc j"
        then have "k = Suc j" by simp
        with True show "md ! k < d" by simp
      qed
      have c: "Suc (Suc j) < n \<longrightarrow> d \<le> md ! Suc (Suc j)" using last by simp
      have d1: "\<forall>k < n. fst (track_farthest d i [Suc j..<n] (md, mi)) ! k =
              (if k < j then md ! k else if k < Suc j then md ! Suc k
               else if k = Suc j then d else md ! k)"
      proof (intro allI impI)
        fix k assume "k < n"
        then have "k < Suc (Suc j)" using last by simp
        from slot_shift_last [OF len(1) this]
        show "fst (track_farthest d i [Suc j..<n] (md, mi)) ! k =
              (if k < j then md ! k else if k < Suc j then md ! Suc k
               else if k = Suc j then d else md ! k)"
          unfolding r .
      qed
      have d2: "\<forall>k < n. snd (track_farthest d i [Suc j..<n] (md, mi)) ! k =
              (if k < j then mi ! k else if k < Suc j then mi ! Suc k
               else if k = Suc j then i else mi ! k)"
      proof (intro allI impI)
        fix k assume "k < n"
        then have "k < Suc (Suc j)" using last by simp
        from slot_shift_last [OF len(2) this]
        show "snd (track_farthest d i [Suc j..<n] (md, mi)) ! k =
              (if k < j then mi ! k else if k < Suc j then mi ! Suc k
               else if k = Suc j then i else mi ! k)"
          unfolding r .
      qed
      show ?thesis
        by (intro exI [of _ "Suc j"] conjI; (rule a b c d1 d2))
    next
      case inner: False
      let ?md = "md[j := md ! Suc j]"
      let ?mi = "mi[j := mi ! Suc j]"
      have nl: "Suc j \<noteq> length md - 1" using inner Suc.prems by simp
      have step: "track_farthest d i [Suc j..<n] (md, mi) =
          track_farthest d i [Suc (Suc j)..<n] (?md, ?mi)"
        using True nl by (simp add: upt Let_def)
      have m: "m = n - Suc j" using Suc.hyps(2) by simp
      have pre: "length ?md = n" "length ?mi = n" "Suc (Suc j) < n"
        using Suc.prems inner by simp_all
      from Suc.hyps(1) [OF m pre]
      obtain p where p: "Suc j \<le> p" "p < n"
        "\<forall>k. Suc j < k \<and> k \<le> p \<longrightarrow> ?md ! k < d"
        "Suc p < n \<longrightarrow> d \<le> ?md ! Suc p"
        "\<forall>k < n. fst (track_farthest d i [Suc (Suc j)..<n] (?md, ?mi)) ! k =
              (if k < Suc j then ?md ! k else if k < p then ?md ! Suc k
               else if k = p then d else ?md ! k)"
        "\<forall>k < n. snd (track_farthest d i [Suc (Suc j)..<n] (?md, ?mi)) ! k =
              (if k < Suc j then ?mi ! k else if k < p then ?mi ! Suc k
               else if k = p then i else ?mi ! k)"
        by blast
      have a: "j \<le> p" "p < n" using p(1,2) by simp_all
      have b: "\<forall>k. j < k \<and> k \<le> p \<longrightarrow> md ! k < d"
      proof (intro allI impI)
        fix k assume k: "j < k \<and> k \<le> p"
        show "md ! k < d"
        proof (cases "k = Suc j")
          case True
          with \<open>md ! Suc j < d\<close> show ?thesis by simp
        next
          case False
          with k have "Suc j < k \<and> k \<le> p" by simp
          with p(3) have "?md ! k < d" by blast
          moreover have "k \<noteq> j" using k by simp
          ultimately show ?thesis by simp
        qed
      qed
      have c: "Suc p < n \<longrightarrow> d \<le> md ! Suc p"
      proof
        assume "Suc p < n"
        with p(4) have "d \<le> ?md ! Suc p" by blast
        moreover have "Suc p \<noteq> j" using p(1) by simp
        ultimately show "d \<le> md ! Suc p" by simp
      qed
      have d1: "\<forall>k < n. fst (track_farthest d i [Suc j..<n] (md, mi)) ! k =
              (if k < j then md ! k else if k < p then md ! Suc k
               else if k = p then d else md ! k)"
      proof (intro allI impI)
        fix k assume kn: "k < n"
        with p(5) have e: "fst (track_farthest d i [Suc (Suc j)..<n] (?md, ?mi)) ! k =
              (if k < Suc j then ?md ! k else if k < p then ?md ! Suc k
               else if k = p then d else ?md ! k)" by blast
        show "fst (track_farthest d i [Suc j..<n] (md, mi)) ! k =
              (if k < j then md ! k else if k < p then md ! Suc k
               else if k = p then d else md ! k)"
          unfolding step e using p(1) kn Suc.prems
          by (intro slot_shift_merge) simp_all
      qed
      have d2: "\<forall>k < n. snd (track_farthest d i [Suc j..<n] (md, mi)) ! k =
              (if k < j then mi ! k else if k < p then mi ! Suc k
               else if k = p then i else mi ! k)"
      proof (intro allI impI)
        fix k assume kn: "k < n"
        with p(6) have e: "snd (track_farthest d i [Suc (Suc j)..<n] (?md, ?mi)) ! k =
              (if k < Suc j then ?mi ! k else if k < p then ?mi ! Suc k
               else if k = p then i else ?mi ! k)" by blast
        show "snd (track_farthest d i [Suc j..<n] (md, mi)) ! k =
              (if k < j then mi ! k else if k < p then mi ! Suc k
               else if k = p then i else mi ! k)"
          unfolding step e using p(1) kn Suc.prems
          by (intro slot_shift_merge) simp_all
      qed
      show ?thesis
        by (intro exI [of _ p] conjI; (rule a b c d1 d2))
    qed
  qed
qed

lemma track_farthest_length:
  "length (fst (track_farthest d i js (md, mi))) = length md \<and>
   length (snd (track_farthest d i js (md, mi))) = length mi"
  by (induction js arbitrary: md mi) (simp_all add: Let_def)

lemma slots_inv_step:
  assumes inv: "slots_inv D m (md, mi)" and m: "m < length D"
  shows "slots_inv D (Suc m) (track_farthest (D ! m) m [1..<length md] (md, mi))"
proof (cases "Suc 0 < length md")
  case False
  then have "[1..<length md] = []" by simp
  then have "track_farthest (D ! m) m [1..<length md] (md, mi) = (md, mi)"
    by (simp only: track_farthest.simps)
  moreover have "slots_inv D (Suc m) (md, mi)"
    using inv False by (simp add: slots_inv_def)
  ultimately show ?thesis by simp
next
  case True
  let ?n = "length md"
  let ?d = "D ! m"
  obtain md' mi' where res: "track_farthest ?d m [1..<?n] (md, mi) = (md', mi')"
    by (cases "track_farthest ?d m [1..<?n] (md, mi)")
  from inv have lmi: "length mi = ?n"
    and S: "\<And>k k'. 1 \<le> k \<Longrightarrow> k \<le> k' \<Longrightarrow> k' < ?n \<Longrightarrow> md ! k \<le> md ! k'"
    and R: "\<And>k. 1 \<le> k \<Longrightarrow> k < ?n \<Longrightarrow> mi ! k < length D \<and> md ! k \<le> D ! (mi ! k)"
    and C: "\<And>x. x < m \<Longrightarrow> (\<exists>k. 1 \<le> k \<and> k < ?n \<and> mi ! k = x \<and> md ! k = D ! x) \<or>
                 (\<forall>k. 1 \<le> k \<and> k < ?n \<longrightarrow> D ! x \<le> md ! k)"
    by (simp_all add: slots_inv_def)
  from track_farthest_length [of ?d m "[1..<?n]" md mi] res lmi
  have len': "length md' = ?n" "length mi' = ?n" by simp_all
  from track_farthest_shape [OF refl lmi True, of ?d m] res
  obtain p where p: "p < ?n"
    and below: "\<And>k. 0 < k \<Longrightarrow> k \<le> p \<Longrightarrow> md ! k < ?d"
    and above: "Suc p < ?n \<Longrightarrow> ?d \<le> md ! Suc p"
    and md': "\<And>k. k < ?n \<Longrightarrow> md' ! k = (if k < p then md ! Suc k else if k = p then ?d else md ! k)"
    and mi': "\<And>k. k < ?n \<Longrightarrow> mi' ! k = (if k < p then mi ! Suc k else if k = p then m else mi ! k)"
    by (auto simp: One_nat_def)
  have above': "?d \<le> md ! k" if "p < k" "k < ?n" for k
  proof -
    from that have "Suc p < ?n" by simp
    then have "?d \<le> md ! Suc p" by (rule above)
    also have "md ! Suc p \<le> md ! k" using that by (intro S) simp_all
    finally show ?thesis .
  qed
  have S': "md' ! k \<le> md' ! k'" if "1 \<le> k" "k \<le> k'" "k' < ?n" for k k'
  proof -
    have k: "k < ?n" using that by simp
    consider "k' < p" | "k < p" "k' = p" | "k < p" "p < k'" | "k = p" "k' = p"
      | "k = p" "p < k'" | "p < k" using that by linarith
    then show ?thesis
    proof cases
      case 1
      then have "md ! Suc k \<le> md ! Suc k'" using that p by (intro S) simp_all
      with 1 that k show ?thesis by (simp add: md')
    next
      case 2
      then have "md ! Suc k < ?d" by (intro below) simp_all
      with 2 that k show ?thesis by (simp add: md')
    next
      case 3
      then have "md ! Suc k \<le> md ! k'" using that by (intro S) simp_all
      with 3 that k show ?thesis by (simp add: md')
    next
      case 4
      then show ?thesis by simp
    next
      case 5
      then have "?d \<le> md ! k'" using that by (intro above') simp_all
      with 5 that k show ?thesis by (simp add: md')
    next
      case 6
      then have "md ! k \<le> md ! k'" using that by (intro S) simp_all
      with 6 that k show ?thesis by (simp add: md')
    qed
  qed
  have R': "mi' ! k < length D \<and> md' ! k \<le> D ! (mi' ! k)" if "1 \<le> k" "k < ?n" for k
  proof -
    consider "k < p" | "k = p" | "p < k" by linarith
    then show ?thesis
    proof cases
      case 1
      then have "mi ! Suc k < length D \<and> md ! Suc k \<le> D ! (mi ! Suc k)"
        using p by (intro R) simp_all
      with 1 that show ?thesis by (simp add: md' mi')
    next
      case 2
      with that m show ?thesis by (simp add: md' mi')
    next
      case 3
      with that R [of k] show ?thesis by (simp add: md' mi')
    qed
  qed
  have low: "md ! 1 \<le> md' ! k" if "1 \<le> k" "k < ?n" "0 < p" for k
  proof -
    consider "k < p" | "k = p" | "p < k" by linarith
    then show ?thesis
    proof cases
      case 1
      then have "md ! 1 \<le> md ! Suc k" using p by (intro S) simp_all
      with 1 that show ?thesis by (simp add: md')
    next
      case 2
      have "md ! 1 < ?d" using that by (intro below) simp_all
      with 2 that show ?thesis by (simp add: md')
    next
      case 3
      then have "md ! 1 \<le> md ! k" using that by (intro S) simp_all
      with 3 that show ?thesis by (simp add: md')
    qed
  qed
  have C': "(\<exists>k. 1 \<le> k \<and> k < ?n \<and> mi' ! k = x \<and> md' ! k = D ! x) \<or>
            (\<forall>k. 1 \<le> k \<and> k < ?n \<longrightarrow> D ! x \<le> md' ! k)" if "x < Suc m" for x
  proof (cases "x = m")
    case xm: True
    show ?thesis
    proof (cases "0 < p")
      case True
      then have "1 \<le> p \<and> p < ?n \<and> mi' ! p = x \<and> md' ! p = D ! x"
        using p xm by (simp add: md' mi')
      then show ?thesis by blast
    next
      case False
      then have p0: "p = 0" by simp
      have "D ! x \<le> md' ! k" if "1 \<le> k" "k < ?n" for k
      proof -
        have "?d \<le> md ! k" using that p0 by (intro above') simp_all
        with that p0 xm show ?thesis by (simp add: md')
      qed
      then show ?thesis by blast
    qed
  next
    case False
    with that have xm: "x < m" by simp
    from C [OF xm] show ?thesis
    proof
      assume "\<exists>k. 1 \<le> k \<and> k < ?n \<and> mi ! k = x \<and> md ! k = D ! x"
      then obtain k0 where k0: "1 \<le> k0" "k0 < ?n" "mi ! k0 = x" "md ! k0 = D ! x" by blast
      consider "p < k0" | "k0 \<le> p" "2 \<le> k0" | "k0 \<le> p" "k0 = 1" using k0(1) by linarith
      then show ?thesis
      proof cases
        case 1
        then have "1 \<le> k0 \<and> k0 < ?n \<and> mi' ! k0 = x \<and> md' ! k0 = D ! x"
          using k0 by (simp add: md' mi')
        then show ?thesis by blast
      next
        case 2
        then obtain k1 where k1: "k0 = Suc k1" "1 \<le> k1" "k1 < p"
          by (cases k0) auto
        then have "k1 < ?n" using p by simp
        then have "1 \<le> k1 \<and> k1 < ?n \<and> mi' ! k1 = x \<and> md' ! k1 = D ! x"
          using k0 k1 by (simp add: md' mi')
        then show ?thesis by blast
      next
        case 3
        then have "0 < p" by simp
        then have "D ! x \<le> md' ! k" if "1 \<le> k" "k < ?n" for k
          using low [OF that] k0(4) 3 by simp
        then show ?thesis by blast
      qed
    next
      assume all: "\<forall>k. 1 \<le> k \<and> k < ?n \<longrightarrow> D ! x \<le> md ! k"
      have "D ! x \<le> md' ! k" if "1 \<le> k" "k < ?n" for k
      proof -
        consider "k < p" | "k = p" | "p < k" by linarith
        then show ?thesis
        proof cases
          case 1
          then have "D ! x \<le> md ! Suc k" using all p by simp
          with 1 that show ?thesis by (simp add: md')
        next
          case 2
          have "D ! x \<le> md ! k" using all that by simp
          also have "md ! k < ?d" using that 2 by (intro below) simp_all
          finally show ?thesis using 2 that by (simp add: md')
        next
          case 3
          then have "D ! x \<le> md ! k" using all that by simp
          with 3 that show ?thesis by (simp add: md')
        qed
      qed
      then show ?thesis by blast
    qed
  qed
  have "slots_inv D (Suc m) (md', mi')"
    unfolding slots_inv_def prod.case len'
    using S' R' C' by blast
  then show ?thesis by (simp only: res)
qed

lemma fold_upt_Suc: "fold F [0..<Suc m] st = F m (fold F [0..<m] st)"
  by simp

lemma slots_inv_fold:
  assumes "slots_inv D 0 st" "m \<le> length D"
  shows "slots_inv D m
     (fold (\<lambda>i (max_distance, max_index).
              track_farthest (D ! i) i [1..<length max_distance] (max_distance, max_index))
           [0..<m] st)"
  using assms(2)
proof (induction m)
  case 0
  show ?case using assms(1) by simp
next
  case (Suc m)
  let ?F = "\<lambda>i (max_distance, max_index).
              track_farthest (D ! i) i [1..<length max_distance] (max_distance, max_index)"
  obtain md mi where st: "fold ?F [0..<m] st = (md, mi)" by (cases "fold ?F [0..<m] st")
  from Suc.prems have m: "m < length D" by simp
  then have "m \<le> length D" by simp
  from Suc.IH [OF this] have "slots_inv D m (md, mi)" unfolding st .
  then have "slots_inv D (Suc m) (track_farthest (D ! m) m [1..<length md] (md, mi))"
    using m by (rule slots_inv_step)
  then show ?case unfolding fold_upt_Suc st prod.case .
qed

lemma fold_track_length:
  "length md = n \<Longrightarrow> length mi = n \<Longrightarrow>
   length (fst (fold (\<lambda>i (max_distance, max_index).
              track_farthest (D ! i) i [1..<length max_distance] (max_distance, max_index))
           idxs (md, mi))) = n \<and>
   length (snd (fold (\<lambda>i (max_distance, max_index).
              track_farthest (D ! i) i [1..<length max_distance] (max_distance, max_index))
           idxs (md, mi))) = n"
proof (induction idxs arbitrary: md mi)
  case Nil
  then show ?case by simp
next
  case (Cons i idxs)
  obtain md' mi' where r: "track_farthest (D ! i) i [1..<length md] (md, mi) = (md', mi')"
    by (cases "track_farthest (D ! i) i [1..<length md] (md, mi)")
  with track_farthest_length [of "D ! i" i "[1..<length md]" md mi] Cons.prems
  have "length md' = n" "length mi' = n" by simp_all
  from Cons.IH [OF this] show ?case
    unfolding fold.simps o_apply prod.case r .
qed

lemma farthest_slots_length:
  "length (fst (farthest_slots D)) = length D div 10 \<and>
   length (snd (farthest_slots D)) = length D div 10"
  unfolding farthest_slots_def by (rule fold_track_length) simp_all

lemma farthest_slots_inv:
  assumes "\<forall>x \<in> set D. 0 \<le> x"
  shows "slots_inv D (length D) (farthest_slots D)"
proof -
  have "slots_inv D 0 (replicate (length D div 10) 0, replicate (length D div 10) 0)"
  proof (cases "D = []")
    case True
    then show ?thesis by (simp add: slots_inv_def)
  next
    case False
    then have "0 < length D" "D ! 0 \<in> set D" by simp_all
    with assms have "0 < length D" "0 \<le> D ! 0" by blast+
    then show ?thesis by (simp add: slots_inv_def)
  qed
  then show ?thesis unfolding farthest_slots_def by (rule slots_inv_fold) simp
qed

lemma in_set_drop_1:
  "x \<in> set (drop (Suc 0) xs) \<longleftrightarrow> (\<exists>k. Suc 0 \<le> k \<and> k < length xs \<and> xs ! k = x)"
proof
  assume "x \<in> set (drop (Suc 0) xs)"
  then obtain k where "k < length (drop (Suc 0) xs)" "drop (Suc 0) xs ! k = x"
    unfolding in_set_conv_nth by blast
  then have "Suc 0 \<le> Suc k \<and> Suc k < length xs \<and> xs ! Suc k = x" by auto
  then show "\<exists>k. Suc 0 \<le> k \<and> k < length xs \<and> xs ! k = x" by blast
next
  assume "\<exists>k. Suc 0 \<le> k \<and> k < length xs \<and> xs ! k = x"
  then obtain k where k: "Suc 0 \<le> k" "k < length xs" "xs ! k = x" by blast
  then obtain k' where "k = Suc k'" by (cases k) auto
  with k have "k' < length (drop (Suc 0) xs)" "drop (Suc 0) xs ! k' = x" by auto
  then show "x \<in> set (drop (Suc 0) xs)" unfolding in_set_conv_nth by blast
qed

lemma residuals_nth: "i < length scan \<Longrightarrow> residuals scan near ! i = vnorm (vsub (scan ! i) (near ! i))"
  by (simp add: residuals_def)

lemma residuals_length [simp]: "length (residuals scan near) = length scan"
  by (simp add: residuals_def)

lemma residuals_nonneg: "\<forall>x \<in> set (residuals scan near). 0 \<le> x"
  by (auto simp: residuals_def vnorm_def)

lemma trimmed_largest:
  assumes "c \<in> trimmed_indices scan near" "i < length scan" "i \<notin> trimmed_indices scan near"
  shows "c < length scan \<and> residuals scan near ! i \<le> residuals scan near ! c"
proof -
  let ?D = "residuals scan near"
  obtain md mi where st: "farthest_slots ?D = (md, mi)" by (cases "farthest_slots ?D")
  from farthest_slots_inv [OF residuals_nonneg, of scan near] st
  have lmi: "length mi = length md"
    and R: "\<And>k. 1 \<le> k \<Longrightarrow> k < length md \<Longrightarrow> mi ! k < length ?D \<and> md ! k \<le> ?D ! (mi ! k)"
    and C: "\<And>x. x < length ?D \<Longrightarrow>
              (\<exists>k. 1 \<le> k \<and> k < length md \<and> mi ! k = x \<and> md ! k = ?D ! x) \<or>
              (\<forall>k. 1 \<le> k \<and> k < length md \<longrightarrow> ?D ! x \<le> md ! k)"
    by (simp_all add: slots_inv_def)
  from assms(1) obtain k where k: "1 \<le> k" "k < length md" "mi ! k = c"
    by (auto simp: trimmed_indices_def st in_set_drop_1 lmi)
  from assms(3) have "\<not> (\<exists>k. 1 \<le> k \<and> k < length md \<and> mi ! k = i)"
    by (simp add: trimmed_indices_def st in_set_drop_1 lmi)
  with C [of i] assms(2) have "?D ! i \<le> md ! k" using k by auto
  also have "md ! k \<le> ?D ! c" using R [OF k(1,2)] k(3) by simp
  finally have "?D ! i \<le> ?D ! c" .
  moreover have "c < length scan" using R [OF k(1,2)] k(3) by simp
  ultimately show ?thesis by simp
qed

lemma trimmed_in_range: "c \<in> trimmed_indices scan near \<Longrightarrow> c < length scan"
proof -
  assume c: "c \<in> trimmed_indices scan near"
  let ?D = "residuals scan near"
  obtain md mi where st: "farthest_slots ?D = (md, mi)" by (cases "farthest_slots ?D")
  from farthest_slots_inv [OF residuals_nonneg, of scan near] st
  have lmi: "length mi = length md"
    and R: "\<And>k. 1 \<le> k \<Longrightarrow> k < length md \<Longrightarrow> mi ! k < length ?D \<and> md ! k \<le> ?D ! (mi ! k)"
    by (simp_all add: slots_inv_def)
  from c obtain k where k: "1 \<le> k" "k < length md" "mi ! k = c"
    by (auto simp: trimmed_indices_def st in_set_drop_1 lmi)
  with R [OF k(1,2)] show ?thesis by simp
qed

lemma trimmed_card: "card (trimmed_indices scan near) \<le> length scan div 10 - 1"
proof -
  have "card (trimmed_indices scan near) \<le> length (drop 1 (snd (farthest_slots (residuals scan near))))"
    unfolding trimmed_indices_def by (rule card_length)
  then show ?thesis using farthest_slots_length [of "residuals scan near"] by simp
qed

lemma clear_fold_nth:
  "i < length msk \<Longrightarrow>
   fold (\<lambda>k msk. msk[max_index ! k := False]) ks msk ! i =
     (msk ! i \<and> i \<notin> (\<lambda>k. max_index ! k) ` set ks)"
proof (induction ks arbitrary: msk)
  case Nil
  then show ?case by simp
next
  case (Cons a ks)
  let ?msk = "msk[max_index ! a := False]"
  from Cons.prems have "i < length ?msk" by simp
  from Cons.IH [OF this]
  have "fold (\<lambda>k msk. msk[max_index ! k := False]) ks ?msk ! i =
     (?msk ! i \<and> i \<notin> (\<lambda>k. max_index ! k) ` set ks)" .
  moreover have "?msk ! i = (msk ! i \<and> i \<noteq> max_index ! a)"
    using Cons.prems by (cases "i = max_index ! a") simp_all
  ultimately show ?case by auto
qed

lemma clear_fold_length:
  "length (fold (\<lambda>k msk. msk[max_index ! k := False]) ks msk) = length msk"
  by (induction ks arbitrary: msk) simp_all

lemma tail_reject_nth:
  assumes "i < length msk"
  shows "tail_reject scan near msk ! i = (msk ! i \<and> i \<notin> trimmed_indices scan near)"
proof -
  let ?mi = "snd (farthest_slots (residuals scan near))"
  have "(\<lambda>k. ?mi ! k) ` set [1..<length ?mi] = set (drop (Suc 0) ?mi)"
  proof (rule set_eqI)
    fix x
    show "x \<in> (\<lambda>k. ?mi ! k) ` set [1..<length ?mi] \<longleftrightarrow> x \<in> set (drop (Suc 0) ?mi)"
    proof
      assume "x \<in> (\<lambda>k. ?mi ! k) ` set [1..<length ?mi]"
      then obtain k where "k \<in> set [1..<length ?mi]" "x = ?mi ! k" by blast
      then have "Suc 0 \<le> k \<and> k < length ?mi \<and> ?mi ! k = x" by simp
      then show "x \<in> set (drop (Suc 0) ?mi)" unfolding in_set_drop_1 by blast
    next
      assume "x \<in> set (drop (Suc 0) ?mi)"
      then obtain k where k: "Suc 0 \<le> k" "k < length ?mi" "?mi ! k = x"
        unfolding in_set_drop_1 by blast
      then have "k \<in> set [1..<length ?mi]" by simp
      with k(3) show "x \<in> (\<lambda>k. ?mi ! k) ` set [1..<length ?mi]" by blast
    qed
  qed
  then show ?thesis
    using assms by (simp add: tail_reject_def clear_slots_def clear_fold_nth trimmed_indices_def)
qed

lemma tail_reject_length: "length (tail_reject scan near msk) = length msk"
  by (simp add: tail_reject_def clear_slots_def clear_fold_length)

lemma trimmed_nonempty:
  assumes "20 \<le> length scan"
  shows "trimmed_indices scan near \<noteq> {}"
proof -
  have "2 \<le> length (snd (farthest_slots (residuals scan near)))"
    using assms farthest_slots_length [of "residuals scan near"] by simp
  then have "drop 1 (snd (farthest_slots (residuals scan near))) \<noteq> []" by simp
  then show ?thesis by (simp add: trimmed_indices_def)
qed

lemma farthest_is_trimmed:
  assumes "20 \<le> length scan"
  shows "\<exists>c \<in> trimmed_indices scan near. \<forall>i < length scan.
           residuals scan near ! i \<le> residuals scan near ! c"
proof -
  let ?T = "trimmed_indices scan near"
  let ?D = "residuals scan near"
  have fin: "finite ?T" by (simp add: trimmed_indices_def)
  from trimmed_nonempty [OF assms] have ne: "?T \<noteq> {}" .
  let ?V = "(\<lambda>x. ?D ! x) ` ?T"
  have fv: "finite ?V" "?V \<noteq> {}" using fin ne by simp_all
  then have "Max ?V \<in> ?V" by (rule Max_in)
  then obtain c where c1: "c \<in> ?T" "?D ! c = Max ?V" by auto
  have "?D ! x \<le> ?D ! c" if "x \<in> ?T" for x
    unfolding c1(2) using fv(1) that by (intro Max_ge) simp_all
  with c1(1) have c: "c \<in> ?T" "\<forall>x \<in> ?T. ?D ! x \<le> ?D ! c" by blast+
  have "?D ! i \<le> ?D ! c" if "i < length scan" for i
  proof (cases "i \<in> ?T")
    case True
    with c(2) show ?thesis by blast
  next
    case False
    from trimmed_largest [OF c(1) that False] show ?thesis by simp
  qed
  with c(1) show ?thesis by blast
qed

text \<open>The slots never hold an index twice once they hold positive distances, and when
  at least as many distances are positive as there are slots from 1 up, every such slot
  ends with a positive distance: the indices read by the clearing loop are then distinct
  indices of positive distance, one per slot.\<close>

lemma slots_own_step:
  assumes inv: "slots_own D m (md, mi)"
  shows "slots_own D (Suc m) (track_farthest (D ! m) m [1..<length md] (md, mi))"
proof (cases "Suc 0 < length md")
  case False
  then have "[1..<length md] = []" by simp
  then have "track_farthest (D ! m) m [1..<length md] (md, mi) = (md, mi)"
    by (simp only: track_farthest.simps)
  moreover have "slots_own D (Suc m) (md, mi)"
    using inv False by (simp add: slots_own_def)
  ultimately show ?thesis by simp
next
  case True
  let ?n = "length md"
  let ?d = "D ! m"
  obtain md' mi' where res: "track_farthest ?d m [1..<?n] (md, mi) = (md', mi')"
    by (cases "track_farthest ?d m [1..<?n] (md, mi)")
  from inv have lmi: "length mi = ?n"
    and R: "\<And>k. 1 \<le> k \<Longrightarrow> k < ?n \<Longrightarrow>
           (md ! k = 0 \<and> mi ! k = 0) \<or> (0 < md ! k \<and> mi ! k < m \<and> md ! k = D ! (mi ! k))"
    and U: "\<And>k k'. 1 \<le> k \<Longrightarrow> k < k' \<Longrightarrow> k' < ?n \<Longrightarrow> 0 < md ! k \<Longrightarrow> 0 < md ! k' \<Longrightarrow>
           mi ! k \<noteq> mi ! k'"
    by (simp_all add: slots_own_def)
  from track_farthest_length [of ?d m "[1..<?n]" md mi] res lmi
  have len': "length md' = ?n" "length mi' = ?n" by simp_all
  from track_farthest_shape [OF refl lmi True, of ?d m] res
  obtain p where p: "p < ?n"
    and below: "\<And>k. 0 < k \<Longrightarrow> k \<le> p \<Longrightarrow> md ! k < ?d"
    and md': "\<And>k. k < ?n \<Longrightarrow> md' ! k = (if k < p then md ! Suc k else if k = p then ?d else md ! k)"
    and mi': "\<And>k. k < ?n \<Longrightarrow> mi' ! k = (if k < p then mi ! Suc k else if k = p then m else mi ! k)"
    by (auto simp: One_nat_def)
  have dpos: "0 < ?d" if "0 < p"
  proof -
    have "md ! 1 < ?d" using that by (intro below) simp_all
    moreover have "0 \<le> md ! 1" using R [of 1] True by auto
    ultimately show ?thesis by simp
  qed
  have old: "(md ! k = 0 \<and> mi ! k = 0) \<or> (0 < md ! k \<and> mi ! k < Suc m \<and> md ! k = D ! (mi ! k))"
    if "1 \<le> k" "k < ?n" for k
    using R [OF that] by auto
  have R': "(md' ! k = 0 \<and> mi' ! k = 0) \<or>
            (0 < md' ! k \<and> mi' ! k < Suc m \<and> md' ! k = D ! (mi' ! k))"
    if "1 \<le> k" "k < ?n" for k
  proof -
    consider "k < p" | "k = p" | "p < k" by linarith
    then show ?thesis
    proof cases
      case 1
      then have "1 \<le> Suc k" "Suc k < ?n" using p by simp_all
      from old [OF this] 1 that show ?thesis by (simp add: md' mi')
    next
      case 2
      then have "0 < p" using that by simp
      from dpos [OF this] 2 that show ?thesis by (simp add: md' mi')
    next
      case 3
      from old [OF that] 3 that show ?thesis by (simp add: md' mi')
    qed
  qed
  have src: "\<exists>j. 1 \<le> j \<and> j < ?n \<and> md' ! k = md ! j \<and> mi' ! k = mi ! j \<and> (k < p \<longrightarrow> j = Suc k) \<and> (p < k \<longrightarrow> j = k)"
    if "1 \<le> k" "k < ?n" "k \<noteq> p" for k
  proof (cases "k < p")
    case True
    then have "1 \<le> Suc k \<and> Suc k < ?n \<and> md' ! k = md ! Suc k \<and> mi' ! k = mi ! Suc k"
      using p that by (simp add: md' mi')
    with True show ?thesis by auto
  next
    case False
    with that have "p < k" by simp
    then have "1 \<le> k \<and> k < ?n \<and> md' ! k = md ! k \<and> mi' ! k = mi ! k"
      using that by (simp add: md' mi')
    with \<open>p < k\<close> show ?thesis by auto
  qed
  have U': "mi' ! k \<noteq> mi' ! k'"
    if "1 \<le> k" "k < k'" "k' < ?n" "0 < md' ! k" "0 < md' ! k'" for k k'
  proof -
    have k: "k < ?n" "1 \<le> k'" using that by simp_all
    consider "k = p" | "k' = p" | "k \<noteq> p" "k' \<noteq> p" by blast
    then show ?thesis
    proof cases
      case 1
      then have "k' \<noteq> p" using that by simp
      from src [OF k(2) that(3) this] obtain j where j: "1 \<le> j" "j < ?n"
        "md' ! k' = md ! j" "mi' ! k' = mi ! j" by blast
      with that(5) R [OF j(1,2)] have "mi ! j < m" by auto
      moreover have "mi' ! k = m" using 1 k by (simp add: mi')
      ultimately show ?thesis using j by simp
    next
      case 2
      then have "k \<noteq> p" using that by simp
      from src [OF that(1) k(1) this] obtain j where j: "1 \<le> j" "j < ?n"
        "md' ! k = md ! j" "mi' ! k = mi ! j" by blast
      with that(4) R [OF j(1,2)] have "mi ! j < m" by auto
      moreover have "mi' ! k' = m" using 2 that by (simp add: mi')
      ultimately show ?thesis using j by simp
    next
      case 3
      from src [OF that(1) k(1) 3(1)] obtain j where j: "1 \<le> j" "j < ?n"
        "md' ! k = md ! j" "mi' ! k = mi ! j" "k < p \<longrightarrow> j = Suc k" "p < k \<longrightarrow> j = k" by blast
      from src [OF k(2) that(3) 3(2)] obtain j' where j': "1 \<le> j'" "j' < ?n"
        "md' ! k' = md ! j'" "mi' ! k' = mi ! j'" "k' < p \<longrightarrow> j' = Suc k'" "p < k' \<longrightarrow> j' = k'" by blast
      have "j < j'" using j(5,6) j'(5,6) 3 that(2) by (cases "k < p"; cases "k' < p") auto
      from U [OF j(1) this j'(2)] that(4,5) j(3) j'(3) have "mi ! j \<noteq> mi ! j'" by simp
      then show ?thesis using j(4) j'(4) by simp
    qed
  qed
  have "slots_own D (Suc m) (md', mi')"
    unfolding slots_own_def prod.case len'
    using R' U' by blast
  then show ?thesis by (simp only: res)
qed

lemma slots_own_fold:
  assumes "slots_own D 0 st"
  shows "slots_own D m
     (fold (\<lambda>i (max_distance, max_index).
              track_farthest (D ! i) i [1..<length max_distance] (max_distance, max_index))
           [0..<m] st)"
proof (induction m)
  case 0
  show ?case using assms by simp
next
  case (Suc m)
  let ?F = "\<lambda>i (max_distance, max_index).
              track_farthest (D ! i) i [1..<length max_distance] (max_distance, max_index)"
  obtain md mi where st: "fold ?F [0..<m] st = (md, mi)" by (cases "fold ?F [0..<m] st")
  from Suc have "slots_own D m (md, mi)" unfolding st .
  then have "slots_own D (Suc m) (track_farthest (D ! m) m [1..<length md] (md, mi))"
    by (rule slots_own_step)
  then show ?case unfolding fold_upt_Suc st prod.case .
qed

lemma farthest_slots_own: "slots_own D (length D) (farthest_slots D)"
proof -
  have "slots_own D 0 (replicate (length D div 10) 0, replicate (length D div 10) 0)"
    by (simp add: slots_own_def)
  then show ?thesis unfolding farthest_slots_def by (rule slots_own_fold)
qed

lemma slots_all_filled:
  assumes P: "length D div 10 - 1 \<le> card {x. x < length D \<and> 0 < D ! x}"
    and nonneg: "\<forall>x \<in> set D. 0 \<le> x"
    and st: "farthest_slots D = (md, mi)"
    and k: "1 \<le> k" "k < length md"
  shows "0 < md ! k"
proof (rule ccontr)
  assume neg: "\<not> 0 < md ! k"
  let ?n = "length md"
  from farthest_slots_length [of D] st have n: "?n = length D div 10" by simp
  from farthest_slots_inv [OF nonneg] st
  have S: "\<And>k k'. 1 \<le> k \<Longrightarrow> k \<le> k' \<Longrightarrow> k' < ?n \<Longrightarrow> md ! k \<le> md ! k'"
    and C: "\<And>x. x < length D \<Longrightarrow> (\<exists>k. 1 \<le> k \<and> k < ?n \<and> mi ! k = x \<and> md ! k = D ! x) \<or>
                 (\<forall>k. 1 \<le> k \<and> k < ?n \<longrightarrow> D ! x \<le> md ! k)"
    by (simp_all add: slots_inv_def)
  from farthest_slots_own [of D] st
  have R: "\<And>k. 1 \<le> k \<Longrightarrow> k < ?n \<Longrightarrow>
           (md ! k = 0 \<and> mi ! k = 0) \<or> (0 < md ! k \<and> mi ! k < length D \<and> md ! k = D ! (mi ! k))"
    by (simp add: slots_own_def)
  from R [OF k] neg have "md ! k = 0" by auto
  moreover have "md ! 1 \<le> md ! k" using k by (intro S) simp_all
  moreover have "0 \<le> md ! 1" using R [of 1] k by auto
  ultimately have one: "md ! 1 = 0" by simp
  have sub: "{x. x < length D \<and> 0 < D ! x} \<subseteq> (\<lambda>j. mi ! j) ` {2..<?n}"
  proof
    fix x assume "x \<in> {x. x < length D \<and> 0 < D ! x}"
    then have x: "x < length D" "0 < D ! x" by simp_all
    from C [OF x(1)] show "x \<in> (\<lambda>j. mi ! j) ` {2..<?n}"
    proof
      assume "\<exists>j. 1 \<le> j \<and> j < ?n \<and> mi ! j = x \<and> md ! j = D ! x"
      then obtain j where j: "1 \<le> j" "j < ?n" "mi ! j = x" "md ! j = D ! x" by blast
      with x(2) one have "j \<noteq> 1" by auto
      with j have "j \<in> {2..<?n}" by simp
      with j(3) show ?thesis by blast
    next
      assume "\<forall>j. 1 \<le> j \<and> j < ?n \<longrightarrow> D ! x \<le> md ! j"
      then have "D ! x \<le> md ! 1" using k by simp
      with one x(2) show ?thesis by simp
    qed
  qed
  have "card {x. x < length D \<and> 0 < D ! x} \<le> card ((\<lambda>j. mi ! j) ` {2..<?n})"
    using sub by (intro card_mono) simp_all
  also have "\<dots> \<le> card {2..<?n}" by (rule card_image_le) simp
  also have "\<dots> = ?n - 2" by simp
  finally have "card {x. x < length D \<and> 0 < D ! x} \<le> ?n - 2" .
  with P n k show False by simp
qed

lemma trimmed_as_image:
  "set (drop (Suc 0) mi) = (\<lambda>j. mi ! j) ` {1..<length mi}"
proof (rule set_eqI)
  fix x
  show "x \<in> set (drop (Suc 0) mi) \<longleftrightarrow> x \<in> (\<lambda>j. mi ! j) ` {1..<length mi}"
  proof
    assume "x \<in> set (drop (Suc 0) mi)"
    then obtain j where j: "Suc 0 \<le> j" "j < length mi" "mi ! j = x"
      unfolding in_set_drop_1 by blast
    then have "j \<in> {1..<length mi}" by simp
    with j(3) show "x \<in> (\<lambda>j. mi ! j) ` {1..<length mi}" by blast
  next
    assume "x \<in> (\<lambda>j. mi ! j) ` {1..<length mi}"
    then obtain j where "j \<in> {1..<length mi}" "x = mi ! j" by blast
    then have "Suc 0 \<le> j \<and> j < length mi \<and> mi ! j = x" by simp
    then show "x \<in> set (drop (Suc 0) mi)" unfolding in_set_drop_1 by blast
  qed
qed

lemma trimmed_filled:
  assumes P: "length scan div 10 - 1 \<le> card {i. i < length scan \<and> 0 < residuals scan near ! i}"
  shows "card (trimmed_indices scan near) = length scan div 10 - 1 \<and>
         (\<forall>c \<in> trimmed_indices scan near. 0 < residuals scan near ! c)"
proof -
  let ?D = "residuals scan near"
  obtain md mi where st: "farthest_slots ?D = (md, mi)" by (cases "farthest_slots ?D")
  let ?n = "length md"
  from farthest_slots_length [of ?D] st have n: "?n = length scan div 10" "length mi = ?n"
    by simp_all
  from P have P': "length ?D div 10 - 1 \<le> card {x. x < length ?D \<and> 0 < ?D ! x}" by simp
  have pos: "0 < md ! k" if "1 \<le> k" "k < ?n" for k
    using slots_all_filled [OF P' residuals_nonneg st that] .
  from farthest_slots_own [of ?D] st
  have R: "\<And>k. 1 \<le> k \<Longrightarrow> k < ?n \<Longrightarrow>
           (md ! k = 0 \<and> mi ! k = 0) \<or> (0 < md ! k \<and> mi ! k < length ?D \<and> md ! k = ?D ! (mi ! k))"
    and U: "\<And>k k'. 1 \<le> k \<Longrightarrow> k < k' \<Longrightarrow> k' < ?n \<Longrightarrow> 0 < md ! k \<Longrightarrow> 0 < md ! k' \<Longrightarrow>
           mi ! k \<noteq> mi ! k'"
    by (simp_all add: slots_own_def)
  have T: "trimmed_indices scan near = (\<lambda>j. mi ! j) ` {1..<?n}"
    by (simp add: trimmed_indices_def st trimmed_as_image n)
  have inj: "inj_on (\<lambda>j. mi ! j) {1..<?n}"
  proof (rule inj_onI)
    fix a b assume a: "a \<in> {1..<?n}" and b: "b \<in> {1..<?n}" and eq: "mi ! a = mi ! b"
    show "a = b"
    proof (rule ccontr)
      assume "a \<noteq> b"
      then consider "a < b" | "b < a" by linarith
      then show False
      proof cases
        case 1
        with a b have "mi ! a \<noteq> mi ! b" by (intro U pos) simp_all
        with eq show False by simp
      next
        case 2
        with a b have "mi ! b \<noteq> mi ! a" by (intro U pos) simp_all
        with eq show False by simp
      qed
    qed
  qed
  have "card (trimmed_indices scan near) = card {1..<?n}"
    unfolding T by (rule card_image [OF inj])
  then have c: "card (trimmed_indices scan near) = length scan div 10 - 1" by (simp add: n)
  have "0 < ?D ! c" if "c \<in> trimmed_indices scan near" for c
  proof -
    from that obtain j where j: "1 \<le> j" "j < ?n" "c = mi ! j" unfolding T by auto
    from R [OF j(1,2)] pos [OF j(1,2)] j(3) show ?thesis by auto
  qed
  with c show ?thesis by blast
qed

text \<open>The mask that reaches the tail rejection in an iteration of \<^verbatim>\<open>ICP\<close>: the search marks
  every point for which it stores a neighbour, the multiplicity rejection puts the scan
  point itself where it unmarks, so a point with a positive residual is marked.\<close>

lemma search_nearest_covers:
  assumes "search_nearest tree scan_ref scan mt dt idxs (near, trace_back, msk, mc) =
             Found (near', trace_back', msk', mc')"
    and "distinct idxs"
    and "length near = length scan" "length msk = length scan"
    and "\<forall>k < length scan. near ! k = scan ! k \<or> msk ! k"
    and "\<forall>k \<in> set idxs. near ! k = scan ! k"
  shows "length near' = length scan \<and> length msk' = length scan \<and>
         (\<forall>k < length scan. near' ! k = scan ! k \<or> msk' ! k)"
  using assms
proof (induction idxs arbitrary: near trace_back msk mc)
  case Nil
  then show ?case by simp
next
  case (Cons i idxs)
  from Cons.prems(1) obtain index where idx: "tree scan_ref (scan ! i) = Some index"
    "\<not> length scan_ref \<le> index"
    by (auto split: option.splits if_splits)
  let ?c = "scan_ref ! index"
  let ?tb = "trace_back[index := trace_back ! index @ [i]]"
  let ?mc = "if vnorm (vsub (scan ! i) ?c) < mt then mc + 1 else mc"
  from Cons.prems(2) have d: "distinct idxs" "i \<notin> set idxs" by simp_all
  show ?case
  proof (cases "vnorm (vsub (scan ! i) ?c) < dt")
    case True
    with Cons.prems(1) idx
    have s: "search_nearest tree scan_ref scan mt dt idxs (near[i := ?c], ?tb, msk[i := True], ?mc) =
        Found (near', trace_back', msk', mc')"
      by (simp add: Let_def)
    have a: "length (near[i := ?c]) = length scan" "length (msk[i := True]) = length scan"
      using Cons.prems(3,4) by simp_all
    have b: "\<forall>k < length scan. near[i := ?c] ! k = scan ! k \<or> msk[i := True] ! k"
    proof (intro allI impI)
      fix k assume k: "k < length scan"
      show "near[i := ?c] ! k = scan ! k \<or> msk[i := True] ! k"
      proof (cases "k = i")
        case True
        then show ?thesis using k Cons.prems(4) by simp
      next
        case False
        then show ?thesis using k Cons.prems(5) by simp
      qed
    qed
    have c: "\<forall>k \<in> set idxs. near[i := ?c] ! k = scan ! k"
    proof
      fix k assume k: "k \<in> set idxs"
      with d(2) have "i \<noteq> k" by blast
      then have "near[i := ?c] ! k = near ! k" by (rule nth_list_update_neq)
      with Cons.prems(6) k show "near[i := ?c] ! k = scan ! k" by simp
    qed
    from Cons.IH [OF s d(1) a b c] show ?thesis .
  next
    case False
    with Cons.prems(1) idx
    have s: "search_nearest tree scan_ref scan mt dt idxs (near, ?tb, msk[i := False], ?mc) =
        Found (near', trace_back', msk', mc')"
      by (simp add: Let_def)
    have a: "length near = length scan" "length (msk[i := False]) = length scan"
      using Cons.prems(3,4) by simp_all
    have ni: "near ! i = scan ! i" using Cons.prems(6) by simp
    have b: "\<forall>k < length scan. near ! k = scan ! k \<or> msk[i := False] ! k"
    proof (intro allI impI)
      fix k assume k: "k < length scan"
      show "near ! k = scan ! k \<or> msk[i := False] ! k"
      proof (cases "k = i")
        case True
        then show ?thesis using ni by simp
      next
        case False
        then show ?thesis using k Cons.prems(5) by simp
      qed
    qed
    have c: "\<forall>k \<in> set idxs. near ! k = scan ! k"
      using Cons.prems(6) by simp
    from Cons.IH [OF s d(1) a b c] show ?thesis .
  qed
qed

lemma disable_inner_covers:
  "length near = length scan \<Longrightarrow> length msk = length scan \<Longrightarrow>
   \<forall>k < length scan. near ! k = scan ! k \<or> msk ! k \<Longrightarrow>
   (case fold (\<lambda>k (near, msk). (near[k := scan ! k], msk[k := False])) tb (near, msk) of
      (near', msk') \<Rightarrow> length near' = length scan \<and> length msk' = length scan \<and>
         (\<forall>k < length scan. near' ! k = scan ! k \<or> msk' ! k))"
proof (induction tb arbitrary: near msk)
  case Nil
  then show ?case by simp
next
  case (Cons j tb)
  have "\<forall>k < length scan. near[j := scan ! j] ! k = scan ! k \<or> msk[j := False] ! k"
  proof (intro allI impI)
    fix k assume k: "k < length scan"
    show "near[j := scan ! j] ! k = scan ! k \<or> msk[j := False] ! k"
    proof (cases "k = j")
      case True
      then show ?thesis using k Cons.prems(1) by simp
    next
      case False
      then show ?thesis using k Cons.prems(3) by simp
    qed
  qed
  with Cons.IH [of "near[j := scan ! j]" "msk[j := False]"] Cons.prems(1,2)
  show ?case by simp
qed

lemma disable_shared_covers:
  "length near = length scan \<Longrightarrow> length msk = length scan \<Longrightarrow>
   \<forall>k < length scan. near ! k = scan ! k \<or> msk ! k \<Longrightarrow>
   (case fold (\<lambda>tb st. if 3 < length tb
                       then fold (\<lambda>k (near, msk). (near[k := scan ! k], msk[k := False])) tb st
                       else st) tbs (near, msk) of
      (near', msk') \<Rightarrow> length near' = length scan \<and> length msk' = length scan \<and>
         (\<forall>k < length scan. near' ! k = scan ! k \<or> msk' ! k))"
proof (induction tbs arbitrary: near msk)
  case Nil
  then show ?case by simp
next
  case (Cons tb tbs)
  show ?case
  proof (cases "3 < length tb")
    case True
    obtain n1 m1 where r: "fold (\<lambda>k (near, msk). (near[k := scan ! k], msk[k := False])) tb (near, msk) = (n1, m1)"
      by (cases "fold (\<lambda>k (near, msk). (near[k := scan ! k], msk[k := False])) tb (near, msk)")
    from disable_inner_covers [OF Cons.prems, of tb] r
    have "length n1 = length scan" "length m1 = length scan"
      "\<forall>k < length scan. n1 ! k = scan ! k \<or> m1 ! k" by simp_all
    from Cons.IH [OF this] True r show ?thesis by simp
  next
    case False
    with Cons.IH [OF Cons.prems] show ?thesis by simp
  qed
qed

lemma iteration_mask_covers_residuals:
  assumes s: "search_nearest tree scan_ref scan mt dt [0..<length scan]
                (scan, replicate (length scan_ref) [], replicate (length scan) False, 0) =
              Found (near0, trace_back, msk0, mc)"
    and d: "disable_shared scan trace_back (near0, msk0) = (near, msk)"
  shows "length msk = length scan \<and>
         (\<forall>i < length scan. 0 < residuals scan near ! i \<longrightarrow> msk ! i)"
proof -
  have "length near0 = length scan \<and> length msk0 = length scan \<and>
         (\<forall>k < length scan. near0 ! k = scan ! k \<or> msk0 ! k)"
    by (rule search_nearest_covers [OF s]) simp_all
  then have pre: "length near0 = length scan" "length msk0 = length scan"
    "\<forall>k < length scan. near0 ! k = scan ! k \<or> msk0 ! k" by simp_all
  from disable_shared_covers [OF pre, of trace_back] d
  have post: "length msk = length scan" "\<forall>k < length scan. near ! k = scan ! k \<or> msk ! k"
    by (simp_all add: disable_shared_def)
  have "msk ! i" if "i < length scan" "0 < residuals scan near ! i" for i
  proof (rule ccontr)
    assume "\<not> msk ! i"
    with post(2) that(1) have "near ! i = scan ! i" by blast
    then have "residuals scan near ! i = 0"
      using that(1) by (simp add: residuals_nth vsub_def vnorm_def)
    with that(2) show False by simp
  qed
  with post(1) show ?thesis by blast
qed

text \<open>Three inputs: fewer than twenty points, a scan matched onto itself, and twenty
  points of which the one at index 5 is the only one off its match.\<close>

lemma tail_reject_small:
  assumes "length scan < 20"
  shows "tail_reject scan near msk = msk"
proof -
  have "length (snd (farthest_slots (residuals scan near))) \<le> 1"
    using assms farthest_slots_length [of "residuals scan near"] by simp
  then have "[1..<length (snd (farthest_slots (residuals scan near)))] = []" by simp
  then show ?thesis by (simp only: tail_reject_def clear_slots_def fold.simps id_apply)
qed

lemma track_farthest_zero:
  assumes "Suc 0 < n"
  shows "track_farthest 0 i [1..<n] (replicate n 0, mi) = (replicate n 0, mi[0 := i])"
proof -
  have upt: "[Suc 0..<n] = Suc 0 # [Suc (Suc 0)..<n]" using assms by (simp add: upt_conv_Cons)
  have "(replicate n (0::real))[0 := 0] = replicate n 0"
    by (rule nth_equalityI) (simp_all add: nth_list_update)
  then show ?thesis using assms by (simp add: upt)
qed

lemma fold_track_zero:
  assumes "Suc 0 < n" "\<forall>i < m. D ! i = 0"
  shows "fst (fold (\<lambda>i (max_distance, max_index).
              track_farthest (D ! i) i [1..<length max_distance] (max_distance, max_index))
           [0..<m] (replicate n 0, replicate n 0)) = replicate n 0 \<and>
         drop (Suc 0) (snd (fold (\<lambda>i (max_distance, max_index).
              track_farthest (D ! i) i [1..<length max_distance] (max_distance, max_index))
           [0..<m] (replicate n 0, replicate n 0))) = replicate (n - 1) 0"
  using assms(2)
proof (induction m)
  case 0
  show ?case by (simp add: drop_replicate)
next
  case (Suc m)
  let ?F = "\<lambda>i (max_distance, max_index).
              track_farthest (D ! i) i [1..<length max_distance] (max_distance, max_index)"
  obtain md mi where st: "fold ?F [0..<m] (replicate n 0, replicate n 0) = (md, mi)"
    by (cases "fold ?F [0..<m] (replicate n 0, replicate n 0)")
  from Suc.prems have "\<forall>i < m. D ! i = 0" by simp
  from Suc.IH [OF this] have md: "md = replicate n 0" and mi: "drop (Suc 0) mi = replicate (n - 1) 0"
    unfolding st by simp_all
  from Suc.prems have d: "D ! m = 0" by simp
  have "?F m (md, mi) = (replicate n 0, mi[0 := m])"
    using track_farthest_zero [OF assms(1), of m mi] by (simp add: md d)
  moreover have "drop (Suc 0) (mi[0 := m]) = drop (Suc 0) mi" by (simp add: drop_update_cancel)
  ultimately show ?case unfolding fold_upt_Suc st by (simp add: mi)
qed

lemma trimmed_identical:
  assumes "20 \<le> length scan"
  shows "trimmed_indices scan scan = {0}"
proof -
  let ?D = "residuals scan scan"
  have z: "\<forall>i < length ?D. ?D ! i = 0"
    by (simp add: residuals_def vsub_def vnorm_def)
  have n: "Suc 0 < length ?D div 10" using assms by simp
  have "drop (Suc 0) (snd (farthest_slots ?D)) = replicate (length ?D div 10 - 1) 0"
    unfolding farthest_slots_def using fold_track_zero [OF n z] by blast
  moreover have "0 < length ?D div 10 - 1" using n by simp
  ultimately show ?thesis by (simp add: trimmed_indices_def)
qed

lemma tail_reject_identical:
  assumes "20 \<le> length scan" "length msk = length scan"
  shows "tail_reject scan scan msk = msk[0 := False]"
proof (rule nth_equalityI)
  show "length (tail_reject scan scan msk) = length (msk[0 := False])"
    by (simp add: tail_reject_length)
next
  fix i assume "i < length (tail_reject scan scan msk)"
  then have i: "i < length msk" by (simp add: tail_reject_length)
  then show "tail_reject scan scan msk ! i = msk[0 := False] ! i"
    by (cases "i = 0") (simp_all add: tail_reject_nth trimmed_identical [OF assms(1)])
qed

lemma upt_0_20:
  "[0..<20] = [0, 1, 2, 3, 4, 5, 6, 7, 8, 9, 10, 11, 12, 13, 14, 15, 16, 17, 18, 19 :: nat]"
  by (simp add: upt_conv_Cons)

lemma residuals_one_far:
  "residuals (replicate 20 (0, 0)) ((replicate 20 (0, 0))[5 := (3, 0)]) =
     [0, 0, 0, 0, 0, 3, 0, 0, 0, 0, 0, 0, 0, 0, 0, 0, 0, 0, 0, 0]"
  by (simp add: residuals_def upt_0_20 vsub_def nth_list_update)

lemma slots_one_far:
  "farthest_slots [0, 0, 0, 0, 0, 3, 0, 0, 0, 0, 0, 0, 0, 0, 0, 0, 0, 0, 0, 0] = ([0, 3], [19, 5])"
  by (simp add: farthest_slots_def upt_0_20 numeral_2_eq_2)

lemma trimmed_one_far:
  "trimmed_indices (replicate 20 (0, 0)) ((replicate 20 (0, 0))[5 := (3, 0)]) = {5}"
  by (simp add: trimmed_indices_def residuals_one_far slots_one_far)

lemma tail_reject_one_far:
  "tail_reject (replicate 20 (0, 0)) ((replicate 20 (0, 0))[5 := (3, 0)]) (replicate 20 True) =
     (replicate 20 True)[5 := False]"
proof (rule nth_equalityI)
  show "length (tail_reject (replicate 20 (0, 0)) ((replicate 20 (0, 0))[5 := (3, 0)])
      (replicate 20 True)) = length ((replicate 20 True)[5 := False])"
    by (simp add: tail_reject_length)
next
  fix i
  assume "i < length (tail_reject (replicate 20 (0, 0)) ((replicate 20 (0, 0))[5 := (3, 0)])
      (replicate 20 True))"
  then have i: "i < 20" by (simp add: tail_reject_length)
  then show "tail_reject (replicate 20 (0, 0)) ((replicate 20 (0, 0))[5 := (3, 0)])
      (replicate 20 True) ! i = (replicate 20 True)[5 := False] ! i"
    by (cases "i = 5") (simp_all add: tail_reject_nth trimmed_one_far)
qed

text \<open>Thirty points of which three are off their match, by 3, 2 and 1.\<close>

lemma upt_0_30:
  "[0..<30] = [0, 1, 2, 3, 4, 5, 6, 7, 8, 9, 10, 11, 12, 13, 14, 15, 16, 17, 18, 19,
     20, 21, 22, 23, 24, 25, 26, 27, 28, 29 :: nat]"
  by (simp add: upt_conv_Cons)

lemma residuals_three_far:
  "residuals (replicate 30 (0, 0)) ((replicate 30 (0, 0))[5 := (3, 0), 7 := (2, 0), 9 := (1, 0)]) =
     [0, 0, 0, 0, 0, 3, 0, 2, 0, 1, 0, 0, 0, 0, 0, 0, 0, 0, 0, 0, 0, 0, 0, 0, 0, 0, 0, 0, 0, 0]"
  by (simp add: residuals_def upt_0_30 vsub_def nth_list_update)

lemma upt_1_3: "[Suc 0..<3] = [Suc 0, 2]" "[1..<3] = [1, 2 :: nat]"
  by (simp_all add: upt_conv_Cons)

lemma div_30_10: "length [0 :: real, 0, 0, 0, 0, 3, 0, 2, 0, 1, 0, 0, 0, 0, 0, 0, 0, 0, 0, 0,
      0, 0, 0, 0, 0, 0, 0, 0, 0, 0] div 10 = 3" by simp

lemma replicate_3: "replicate 3 x = [x, x, x]" by (simp add: numeral_3_eq_3)

lemma slots_three_far:
  "farthest_slots [0, 0, 0, 0, 0, 3, 0, 2, 0, 1, 0, 0, 0, 0, 0, 0, 0, 0, 0, 0,
      0, 0, 0, 0, 0, 0, 0, 0, 0, 0] = ([0, 2, 3], [29, 7, 5])"
  unfolding farthest_slots_def div_30_10 replicate_3
  by (simp add: upt_0_30 upt_1_3)

lemma trimmed_three_far:
  "trimmed_indices (replicate 30 (0, 0)) ((replicate 30 (0, 0))[5 := (3, 0), 7 := (2, 0), 9 := (1, 0)])
     = {5, 7}"
  by (auto simp add: trimmed_indices_def residuals_three_far slots_three_far)

lemma positive_three_far:
  "{i. i < length (replicate 30 (0 :: real, 0 :: real)) \<and>
       0 < residuals (replicate 30 (0, 0))
             ((replicate 30 (0, 0))[5 := (3, 0), 7 := (2, 0), 9 := (1, 0)]) ! i} = {5, 7, 9}"
proof -
  let ?D = "[0, 0, 0, 0, 0, 3, 0, 2, 0, 1, 0, 0, 0, 0, 0, 0, 0, 0, 0, 0, 0, 0, 0, 0, 0, 0, 0, 0, 0, 0 :: real]"
  have "{i. i < 30 \<and> 0 < ?D ! i} = set (filter (\<lambda>i. 0 < ?D ! i) [0..<30])"
    by (simp only: set_filter set_upt atLeastLessThan_iff) blast
  also have "\<dots> = {5, 7, 9}"
    unfolding upt_0_30 by simp
  finally show ?thesis by (simp add: residuals_three_far)
qed

text \<open>
  Claim C4, as stated: for every scan of at least two points the step removes exactly
  \<open>\<lceil>|scan|/10\<rceil> - 1\<close> correspondences of largest residual, and never the farthest one.
  With 11 points at residual 1 it removes none, where the claim counts 1; with 30 points
  at residual 0 it removes the one at index 0, where the claim counts 2; with 20 points
  of which only index 5 has a positive residual it removes index 5, the farthest.
\<close>

theorem tail_reject_counterexample:
  "nat \<lceil>(11 :: real) / 10\<rceil> - 1 = 1 \<and>
   tail_reject (replicate 11 (0, 0)) (replicate 11 (1, 0)) (replicate 11 True) = replicate 11 True \<and>
   nat \<lceil>(30 :: real) / 10\<rceil> - 1 = 2 \<and>
   tail_reject (replicate 30 (1, 0)) (replicate 30 (1, 0)) (replicate 30 True) =
     (replicate 30 True)[0 := False] \<and>
   residuals (replicate 20 (0, 0)) ((replicate 20 (0, 0))[5 := (3, 0)]) =
     [0, 0, 0, 0, 0, 3, 0, 0, 0, 0, 0, 0, 0, 0, 0, 0, 0, 0, 0, 0] \<and>
   tail_reject (replicate 20 (0, 0)) ((replicate 20 (0, 0))[5 := (3, 0)]) (replicate 20 True) =
     (replicate 20 True)[5 := False]"
proof (intro conjI)
  have "\<lceil>(11 :: real) / 10\<rceil> = 2" by linarith
  then show "nat \<lceil>(11 :: real) / 10\<rceil> - 1 = 1" by simp
  show "tail_reject (replicate 11 (0, 0)) (replicate 11 (1, 0)) (replicate 11 True) = replicate 11 True"
    by (rule tail_reject_small) simp
  show "nat \<lceil>(30 :: real) / 10\<rceil> - 1 = 2" by simp
  show "tail_reject (replicate 30 (1, 0)) (replicate 30 (1, 0)) (replicate 30 True) =
     (replicate 30 True)[0 := False]"
    by (rule tail_reject_identical) simp_all
  show "residuals (replicate 20 (0, 0)) ((replicate 20 (0, 0))[5 := (3, 0)]) =
     [0, 0, 0, 0, 0, 3, 0, 0, 0, 0, 0, 0, 0, 0, 0, 0, 0, 0, 0, 0]"
    by (rule residuals_one_far)
  show "tail_reject (replicate 20 (0, 0)) ((replicate 20 (0, 0))[5 := (3, 0)]) (replicate 20 True) =
     (replicate 20 True)[5 := False]"
    by (rule tail_reject_one_far)
qed

text \<open>
  Claim C4, amended: the step keeps \<open>\<lfloor>|scan|/10\<rfloor>\<close> slots and clears the mask at the indices
  held in slots 1 and up; every other mask entry is as before. When at least
  \<open>\<lfloor>|scan|/10\<rfloor> - 1\<close> correspondences have a positive residual (and each of them is in the
  mask, as it is in every iteration of \<^verbatim>\<open>ICP\<close>), the step removes exactly
  \<open>\<lfloor>|scan|/10\<rfloor> - 1\<close> correspondences (none below 20 points): these are distinct
  correspondences of positive residual, no correspondence left alone has a larger
  residual than one removed, and from 20 points on a correspondence of largest residual
  is among those removed. Slot 0 of \<^verbatim>\<open>max_index\<close> is never read by the clearing loop.
\<close>

theorem tail_reject_trims:
  assumes len: "length msk = length scan"
    and cover: "\<forall>i < length scan. 0 < residuals scan near ! i \<longrightarrow> msk ! i"
    and filled: "length scan div 10 - 1
                   \<le> card {i. i < length scan \<and> 0 < residuals scan near ! i}"
  shows "card {i. i < length scan \<and> msk ! i \<and> \<not> tail_reject scan near msk ! i}
           = length scan div 10 - 1 \<and>
     length (tail_reject scan near msk) = length scan \<and>
     (\<forall>i < length scan.
        tail_reject scan near msk ! i = (msk ! i \<and> i \<notin> trimmed_indices scan near)) \<and>
     card (trimmed_indices scan near) = length scan div 10 - 1 \<and>
     (\<forall>c \<in> trimmed_indices scan near. c < length scan \<and> msk ! c \<and>
        0 < residuals scan near ! c \<and>
        (\<forall>i < length scan. i \<notin> trimmed_indices scan near \<longrightarrow>
           residuals scan near ! i \<le> residuals scan near ! c)) \<and>
     (20 \<le> length scan \<longrightarrow>
        (\<exists>c \<in> trimmed_indices scan near.
           \<forall>i < length scan. residuals scan near ! i \<le> residuals scan near ! c))"
proof -
  let ?T = "trimmed_indices scan near"
  from trimmed_filled [OF filled]
  have card: "card ?T = length scan div 10 - 1"
    and pos: "\<And>c. c \<in> ?T \<Longrightarrow> 0 < residuals scan near ! c" by blast+
  have nth: "\<forall>i < length scan. tail_reject scan near msk ! i = (msk ! i \<and> i \<notin> ?T)"
    using len by (simp add: tail_reject_nth)
  have inmask: "msk ! c" if "c \<in> ?T" for c
    using cover trimmed_in_range [OF that] pos [OF that] by blast
  have "{i. i < length scan \<and> msk ! i \<and> \<not> tail_reject scan near msk ! i} = ?T"
    using nth inmask trimmed_in_range by blast
  then have removed: "card {i. i < length scan \<and> msk ! i \<and> \<not> tail_reject scan near msk ! i}
      = length scan div 10 - 1"
    using card by simp
  have l: "length (tail_reject scan near msk) = length scan"
    using len by (simp add: tail_reject_length)
  have largest: "\<forall>c \<in> ?T. c < length scan \<and> msk ! c \<and> 0 < residuals scan near ! c \<and>
        (\<forall>i < length scan. i \<notin> ?T \<longrightarrow> residuals scan near ! i \<le> residuals scan near ! c)"
    using trimmed_largest trimmed_in_range inmask pos by blast
  have far: "20 \<le> length scan \<longrightarrow>
        (\<exists>c \<in> ?T. \<forall>i < length scan. residuals scan near ! i \<le> residuals scan near ! c)"
    using farthest_is_trimmed by blast
  from removed l nth card largest far show ?thesis by blast
qed

theorem tail_reject_trims_witness:
  "length (replicate 30 True) = length (replicate 30 (0 :: real, 0 :: real)) \<and>
   {i. i < length (replicate 30 (0 :: real, 0 :: real)) \<and>
       0 < residuals (replicate 30 (0, 0))
             ((replicate 30 (0, 0))[5 := (3, 0), 7 := (2, 0), 9 := (1, 0)]) ! i} = {5, 7, 9} \<and>
   replicate 30 True ! 5 \<and> replicate 30 True ! 7 \<and> replicate 30 True ! 9 \<and>
   length (replicate 30 (0 :: real, 0 :: real)) div 10 - 1 = 2 \<and>
   trimmed_indices (replicate 30 (0, 0))
     ((replicate 30 (0, 0))[5 := (3, 0), 7 := (2, 0), 9 := (1, 0)]) = {5, 7} \<and>
   card {i. i < length (replicate 30 (0 :: real, 0 :: real)) \<and> replicate 30 True ! i \<and>
            \<not> tail_reject (replicate 30 (0, 0))
                 ((replicate 30 (0, 0))[5 := (3, 0), 7 := (2, 0), 9 := (1, 0)])
                 (replicate 30 True) ! i} = 2 \<and>
   \<not> tail_reject (replicate 30 (0, 0))
       ((replicate 30 (0, 0))[5 := (3, 0), 7 := (2, 0), 9 := (1, 0)]) (replicate 30 True) ! 5 \<and>
   \<not> tail_reject (replicate 30 (0, 0))
       ((replicate 30 (0, 0))[5 := (3, 0), 7 := (2, 0), 9 := (1, 0)]) (replicate 30 True) ! 7 \<and>
   tail_reject (replicate 30 (0, 0))
       ((replicate 30 (0, 0))[5 := (3, 0), 7 := (2, 0), 9 := (1, 0)]) (replicate 30 True) ! 9 \<and>
   tail_reject (replicate 30 (0, 0))
       ((replicate 30 (0, 0))[5 := (3, 0), 7 := (2, 0), 9 := (1, 0)]) (replicate 30 True) ! 0"
proof -
  let ?scan = "replicate 30 (0 :: real, 0 :: real)"
  let ?near = "(replicate 30 (0 :: real, 0 :: real))[5 := (3, 0), 7 := (2, 0), 9 := (1, 0)]"
  let ?msk = "replicate 30 True"
  have len: "length ?msk = length ?scan" by simp
  have cover: "\<forall>i < length ?scan. 0 < residuals ?scan ?near ! i \<longrightarrow> ?msk ! i" by simp
  have filled: "length ?scan div 10 - 1 \<le> card {i. i < length ?scan \<and> 0 < residuals ?scan ?near ! i}"
    unfolding positive_three_far by simp
  from tail_reject_trims [OF len cover filled] trimmed_three_far positive_three_far
  show ?thesis by simp
qed

end
